theory Spec2Isabelle
  imports Main "HOL-Library.Stream" "HOL-Library.Word"
begin

unbundle bit_operations_syntax

section \<open>The Python environment of \<open>rsa_image.py\<close>\<close>

text \<open>
  Python integers are unbounded, so they are \<^typ>\<open>int\<close>; \<open>//\<close> and \<open>%\<close> round towards
  minus infinity, as \<open>div\<close> and \<open>mod\<close> on \<^typ>\<open>int\<close> do. An exception that leaves a
  function is the \<open>Inl\<close> branch of a sum.
\<close>

datatype py_exc = ValueError | ZeroDivisionError

text \<open>
  The module \<open>random\<close> is a hidden global generator. It is made explicit as the stream of
  the raw numbers it is going to deliver; every draw consumes the head of the stream and
  reduces it into the requested range, so that every value of the range is drawn for some
  stream and no value outside it for any. \<open>random.randint(a, b)\<close> raises for an empty range,
  \<open>random.getrandbits(k)\<close> for a negative \<open>k\<close>.
\<close>

type_synonym rng = "nat stream"

definition randint :: "int \<Rightarrow> int \<Rightarrow> rng \<Rightarrow> py_exc + int \<times> rng" where
  "randint a b g =
     (if b < a then Inl ValueError
      else Inr (a + int (shd g) mod (b - a + 1), stl g))"

definition getrandbits :: "int \<Rightarrow> rng \<Rightarrow> py_exc + int \<times> rng" where
  "getrandbits k g =
     (if k < 0 then Inl ValueError
      else Inr (int (shd g) mod 2 ^ nat k, stl g))"

text \<open>\<open>1 << k\<close> raises for a negative shift count.\<close>

definition py_shl :: "int \<Rightarrow> int \<Rightarrow> py_exc + int" where
  "py_shl x k = (if k < 0 then Inl ValueError else Inr (push_bit (nat k) x))"

text \<open>
  The built-in \<open>pow(b, e, m)\<close>: a zero modulus raises; a negative exponent first inverts
  the base modulo \<open>|m|\<close> and raises when it has no inverse; the result has the sign of the
  modulus, like \<open>%\<close>.
\<close>

definition py_invmod :: "int \<Rightarrow> int \<Rightarrow> int option" where
  "py_invmod b m = find (\<lambda>x. (b * x) mod \<bar>m\<bar> = 1 mod \<bar>m\<bar>) [0 .. \<bar>m\<bar> - 1]"

definition py_pow :: "int \<Rightarrow> int \<Rightarrow> int \<Rightarrow> py_exc + int" where
  "py_pow b e m =
     (if m = 0 then Inl ValueError
      else if e < 0 then
        (case py_invmod b m of
           None \<Rightarrow> Inl ValueError
         | Some i \<Rightarrow> Inr (i ^ nat (- e) mod m))
      else Inr (b ^ nat e mod m))"

section \<open>Number theory: \<open>gcd\<close> and \<open>mod_inverse\<close>\<close>

text \<open>
  \<open>while b: a, b = b, a % b\<close>. The remainder is strictly smaller in absolute value than
  the divisor, whatever the signs.
\<close>

function py_gcd :: "int \<Rightarrow> int \<Rightarrow> int" where
  "py_gcd a b = (if b \<noteq> 0 then py_gcd b (a mod b) else a)"
  by pat_completeness auto
termination
  by (relation "measure (\<lambda>(a, b). nat \<bar>b\<bar>)") (auto intro: abs_mod_less)

declare py_gcd.simps [simp del]

text \<open>
  The loop of \<open>mod_inverse\<close> on the variables \<open>a, m, x, y\<close>. \<open>a // m\<close> raises when the
  divisor has become zero.
\<close>

function mod_inverse_loop :: "int \<Rightarrow> int \<Rightarrow> int \<Rightarrow> int \<Rightarrow> py_exc + int" where
  "mod_inverse_loop a m x y =
     (if 1 < a then
        (if m = 0 then Inl ZeroDivisionError
         else mod_inverse_loop m (a mod m) y (x - (a div m) * y))
      else Inr x)"
  by pat_completeness auto
termination
proof (relation "measure (\<lambda>(a, m, x, y). if 1 < a then nat \<bar>m\<bar> + 1 else 0)")
  show "wf (measure (\<lambda>(a, m, x, y). if 1 < a then nat \<bar>m\<bar> + 1 else 0))"
    by simp
next
  fix a m x y :: int
  assume "1 < a" "m \<noteq> 0"
  moreover have "\<bar>a mod m\<bar> < \<bar>m\<bar>"
    using \<open>m \<noteq> 0\<close> by (rule abs_mod_less)
  ultimately show "((m, a mod m, y, x - a div m * y), (a, m, x, y))
      \<in> measure (\<lambda>(a, m, x, y). if 1 < a then nat \<bar>m\<bar> + 1 else 0)"
    by auto
qed

declare mod_inverse_loop.simps [simp del]

definition mod_inverse :: "int \<Rightarrow> int \<Rightarrow> py_exc + int" where
  "mod_inverse a m =
     (if m = 1 then Inr 0
      else case mod_inverse_loop a m 1 0 of
             Inl ex \<Rightarrow> Inl ex
           | Inr x \<Rightarrow> Inr (if x < 0 then x + m else x))"

section \<open>Primality test and prime generation\<close>

text \<open>
  \<open>while d % 2 == 0: s += 1; d //= 2\<close>. The loop does not end on \<open>d = 0\<close>.
\<close>

partial_function (option) split_loop :: "int \<Rightarrow> int \<Rightarrow> (int \<times> int) option" where
  "split_loop s d = (if d mod 2 = 0 then split_loop (s + 1) (d div 2) else Some (s, d))"

declare split_loop.simps [code]

text \<open>
  The inner loop \<open>for _ in range(s - 1)\<close> of a trial, run \<open>j\<close> more times from \<open>x\<close>:
  \<open>True\<close> is the \<open>break\<close> (the value \<open>n - 1\<close> was met), \<open>False\<close> the \<open>else\<close> branch
  of the loop.
\<close>

fun squaring_loop :: "nat \<Rightarrow> int \<Rightarrow> int \<Rightarrow> py_exc + bool" where
  "squaring_loop 0 x n = Inr False"
| "squaring_loop (Suc j) x n =
     (case py_pow x 2 n of
        Inl ex \<Rightarrow> Inl ex
      | Inr x' \<Rightarrow> if x' = n - 1 then Inr True else squaring_loop j x' n)"

text \<open>The outer loop \<open>for _ in range(k)\<close>, with \<open>k\<close> trials left.\<close>

fun trial_loop :: "nat \<Rightarrow> int \<Rightarrow> int \<Rightarrow> int \<Rightarrow> rng \<Rightarrow> py_exc + bool \<times> rng" where
  "trial_loop 0 n s d g = Inr (True, g)"
| "trial_loop (Suc k) n s d g =
     (case randint 2 (n - 2) g of
        Inl ex \<Rightarrow> Inl ex
      | Inr (a, g') \<Rightarrow>
          (case py_pow a d n of
             Inl ex \<Rightarrow> Inl ex
           | Inr x \<Rightarrow>
               if x = 1 \<or> x = n - 1 then trial_loop k n s d g'
               else (case squaring_loop (nat (s - 1)) x n of
                       Inl ex \<Rightarrow> Inl ex
                     | Inr met \<Rightarrow>
                         if met then trial_loop k n s d g' else Inr (False, g'))))"

definition is_prime :: "int \<Rightarrow> int \<Rightarrow> rng \<Rightarrow> (py_exc + bool \<times> rng) option" where
  "is_prime n k g =
     (if n \<le> 1 \<or> n = 4 then Some (Inr (False, g))
      else if n \<le> 3 then Some (Inr (True, g))
      else if n mod 2 = 0 then Some (Inr (False, g))
      else (case split_loop 0 (n - 1) of
              None \<Rightarrow> None
            | Some (s, d) \<Rightarrow> Some (trial_loop (nat k) n s d g)))"

text \<open>
  \<open>generate_prime\<close>: \<open>while True\<close> around a draw and a test with the default \<open>k = 5\<close>.
  \<open>p |= (1 << bits - 1) | 1\<close> shifts by \<open>bits - 1\<close>.
\<close>

partial_function (option) generate_prime :: "int \<Rightarrow> rng \<Rightarrow> (py_exc + int \<times> rng) option" where
  "generate_prime bits g =
     (case getrandbits bits g of
        Inl ex \<Rightarrow> Some (Inl ex)
      | Inr (p0, g1) \<Rightarrow>
          (case py_shl 1 (bits - 1) of
             Inl ex \<Rightarrow> Some (Inl ex)
           | Inr msb \<Rightarrow>
               (case is_prime (p0 OR (msb OR 1)) 5 g1 of
                  None \<Rightarrow> None
                | Some (Inl ex) \<Rightarrow> Some (Inl ex)
                | Some (Inr (passed, g2)) \<Rightarrow>
                    if passed then Some (Inr (p0 OR (msb OR 1), g2))
                    else generate_prime bits g2)))"

declare generate_prime.simps [code]

section \<open>Key pair generation\<close>

text \<open>
  The messages of \<open>st.info\<close> and \<open>st.success\<close> only display values and are left out.
  \<open>while p == q: q = generate_prime(bits // 2)\<close>:
\<close>

partial_function (option) distinct_loop ::
  "int \<Rightarrow> int \<Rightarrow> int \<Rightarrow> rng \<Rightarrow> (py_exc + int \<times> rng) option" where
  "distinct_loop bits p q g =
     (if p = q then
        (case generate_prime (bits div 2) g of
           None \<Rightarrow> None
         | Some (Inl ex) \<Rightarrow> Some (Inl ex)
         | Some (Inr (q', g')) \<Rightarrow> distinct_loop bits p q' g')
      else Some (Inr (q, g)))"

declare distinct_loop.simps [code]

text \<open>\<open>while gcd(e, phi) != 1: e = random.randint(2, phi - 1)\<close>:\<close>

partial_function (option) choose_e_loop ::
  "int \<Rightarrow> int \<Rightarrow> rng \<Rightarrow> (py_exc + int \<times> rng) option" where
  "choose_e_loop e phi g =
     (if py_gcd e phi \<noteq> 1 then
        (case randint 2 (phi - 1) g of
           Inl ex \<Rightarrow> Some (Inl ex)
         | Inr (e', g') \<Rightarrow> choose_e_loop e' phi g')
      else Some (Inr (e, g)))"

declare choose_e_loop.simps [code]

type_synonym key = "int \<times> int"

definition generate_keypair :: "int \<Rightarrow> rng \<Rightarrow> (py_exc + (key \<times> key) \<times> rng) option" where
  "generate_keypair bits g =
     (case generate_prime (bits div 2) g of
        None \<Rightarrow> None
      | Some (Inl ex) \<Rightarrow> Some (Inl ex)
      | Some (Inr (p, g1)) \<Rightarrow>
     (case generate_prime (bits div 2) g1 of
        None \<Rightarrow> None
      | Some (Inl ex) \<Rightarrow> Some (Inl ex)
      | Some (Inr (q0, g2)) \<Rightarrow>
     (case distinct_loop bits p q0 g2 of
        None \<Rightarrow> None
      | Some (Inl ex) \<Rightarrow> Some (Inl ex)
      | Some (Inr (q, g3)) \<Rightarrow>
     (let n = p * q; phi = (p - 1) * (q - 1) in
      case randint 2 (phi - 1) g3 of
        Inl ex \<Rightarrow> Some (Inl ex)
      | Inr (e0, g4) \<Rightarrow>
     (case choose_e_loop e0 phi g4 of
        None \<Rightarrow> None
      | Some (Inl ex) \<Rightarrow> Some (Inl ex)
      | Some (Inr (e, g5)) \<Rightarrow>
     (case mod_inverse e phi of
        Inl ex \<Rightarrow> Some (Inl ex)
      | Inr d \<Rightarrow> Some (Inr (((n, e), (n, d)), g5))))))))"

section \<open>Text and byte encryption\<close>

text \<open>
  A Python string is the list of its characters, a character is its code point (what
  \<open>ord\<close> returns); \<open>chr\<close> raises outside \<open>range(0x110000)\<close>. A \<open>bytes\<close> object is a
  list of 8-bit words; iterating over it yields the values \<open>0..255\<close>, and
  \<open>v.to_bytes(1, 'big')\<close> is only reached for such a value.
\<close>

datatype py_char = CodePoint (ord: int)

definition chr :: "int \<Rightarrow> py_exc + py_char" where
  "chr i = (if 0 \<le> i \<and> i < 0x110000 then Inr (CodePoint i) else Inl ValueError)"

definition valid_str :: "py_char list \<Rightarrow> bool" where
  "valid_str s \<longleftrightarrow> list_all (\<lambda>c. 0 \<le> ord c \<and> ord c < 0x110000) s"

text \<open>
  The two messages that the functions hand to \<open>st.error\<close>, with the values they show.
  A function returns its value together with the messages it has reported.
\<close>

datatype st_error = UnitTooLarge py_char int | InvalidByteValue int

fun encrypt_text_loop ::
  "int \<Rightarrow> int \<Rightarrow> int list \<Rightarrow> py_char list \<Rightarrow> py_exc + int list \<times> st_error list" where
  "encrypt_text_loop n e acc [] = Inr (acc, [])"
| "encrypt_text_loop n e acc (c # cs) =
     (if ord c \<ge> n then Inr ([], [UnitTooLarge c n])
      else (case py_pow (ord c) e n of
              Inl ex \<Rightarrow> Inl ex
            | Inr v \<Rightarrow> encrypt_text_loop n e (acc @ [v]) cs))"

definition encrypt_text :: "key \<Rightarrow> py_char list \<Rightarrow> py_exc + int list \<times> st_error list" where
  "encrypt_text public_key plaintext =
     (case public_key of (n, e) \<Rightarrow> encrypt_text_loop n e [] plaintext)"

fun decrypt_text_loop ::
  "int \<Rightarrow> int \<Rightarrow> py_char list \<Rightarrow> int list \<Rightarrow> py_exc + py_char list" where
  "decrypt_text_loop n d acc [] = Inr acc"
| "decrypt_text_loop n d acc (c # cs) =
     (case py_pow c d n of
        Inl ex \<Rightarrow> Inl ex
      | Inr v \<Rightarrow>
          (case chr v of
             Inl ex \<Rightarrow> Inl ex
           | Inr ch \<Rightarrow> decrypt_text_loop n d (acc @ [ch]) cs))"

definition decrypt_text :: "key \<Rightarrow> int list \<Rightarrow> py_exc + py_char list" where
  "decrypt_text private_key ciphertext_ints =
     (case private_key of (n, d) \<Rightarrow> decrypt_text_loop n d [] ciphertext_ints)"

type_synonym byte = "8 word"

fun encrypt_bytes_loop :: "int \<Rightarrow> int \<Rightarrow> int list \<Rightarrow> byte list \<Rightarrow> py_exc + int list" where
  "encrypt_bytes_loop n e acc [] = Inr acc"
| "encrypt_bytes_loop n e acc (b # bs) =
     (case py_pow (uint b) e n of
        Inl ex \<Rightarrow> Inl ex
      | Inr v \<Rightarrow> encrypt_bytes_loop n e (acc @ [v]) bs)"

definition encrypt_bytes :: "key \<Rightarrow> byte list \<Rightarrow> py_exc + int list" where
  "encrypt_bytes public_key data_bytes =
     (case public_key of (n, e) \<Rightarrow> encrypt_bytes_loop n e [] data_bytes)"

fun decrypt_bytes_loop ::
  "int \<Rightarrow> int \<Rightarrow> byte list \<Rightarrow> int list \<Rightarrow> py_exc + byte list \<times> st_error list" where
  "decrypt_bytes_loop n d acc [] = Inr (acc, [])"
| "decrypt_bytes_loop n d acc (c # cs) =
     (case py_pow c d n of
        Inl ex \<Rightarrow> Inl ex
      | Inr v \<Rightarrow>
          if \<not> (0 \<le> v \<and> v \<le> 255) then Inr ([], [InvalidByteValue v])
          else decrypt_bytes_loop n d (acc @ [word_of_int v]) cs)"

definition decrypt_bytes :: "key \<Rightarrow> int list \<Rightarrow> py_exc + byte list \<times> st_error list" where
  "decrypt_bytes private_key ciphertext_ints =
     (case private_key of (n, d) \<Rightarrow> decrypt_bytes_loop n d [] ciphertext_ints)"

text \<open>The values that fit into a byte.\<close>

definition byte_range :: "int \<Rightarrow> bool" where
  "byte_range v \<longleftrightarrow> 0 \<le> v \<and> v \<le> 255"

text \<open>
  The bases that \<open>k\<close> rounds of the test on \<open>n\<close> draw from the generator state \<open>g\<close>
  (a round that fails ends the test, so the later ones are then not drawn).
\<close>

definition bases :: "int \<Rightarrow> nat \<Rightarrow> rng \<Rightarrow> int list" where
  "bases n k g = map (\<lambda>r. 2 + int r mod (n - 3)) (stake k g)"

text \<open>Primality proper, against which the probabilistic test is measured.\<close>

definition prime_int :: "int \<Rightarrow> bool" where
  "prime_int p \<longleftrightarrow> 1 < p \<and> (\<forall>m \<in> {2 .. p - 1}. \<not> m dvd p)"

section \<open>Properties of \<open>gcd\<close>\<close>

lemma py_gcd_nonneg: "0 \<le> a \<Longrightarrow> 0 \<le> b \<Longrightarrow> py_gcd a b = gcd a b"
proof (induction a b rule: py_gcd.induct)
  case (1 a b)
  show ?case
  proof (cases "b = 0")
    case True
    with "1.prems" show ?thesis by (simp add: py_gcd.simps)
  next
    case False
    with "1.prems" have "0 \<le> a mod b" by simp
    with False "1.prems" have "py_gcd b (a mod b) = gcd b (a mod b)"
      by (intro "1.IH") simp_all
    with False show ?thesis
      by (simp add: py_gcd.simps [of a b] gcd.commute [of a b] gcd_red_int [symmetric])
  qed
qed

text \<open>
  C7: for all non-negative integers \<open>a\<close> and \<open>b\<close>, \<open>gcd(a, b) = gcd(b, a)\<close>, and
  \<open>gcd(a, 0) = a\<close>.
\<close>

theorem gcd_commutes_and_zero:
  "0 \<le> a \<Longrightarrow> 0 \<le> b \<Longrightarrow> py_gcd a b = py_gcd b a \<and> py_gcd a 0 = a"
  by (simp add: py_gcd_nonneg gcd.commute py_gcd.simps [of a 0])

theorem gcd_commutes_and_zero_witness:
  "(0::int) \<le> 12 \<and> (0::int) \<le> 18 \<and> py_gcd 12 18 = py_gcd 18 12 \<and> py_gcd 12 0 = 12"
  using gcd_commutes_and_zero [of 12 18] by simp

section \<open>Properties of the block codec\<close>

lemma py_pow_nonneg_exp: "m \<noteq> 0 \<Longrightarrow> 0 \<le> e \<Longrightarrow> py_pow b e m = Inr (b ^ nat e mod m)"
  by (simp add: py_pow_def)

lemma encrypt_text_loop_failure_value:
  "encrypt_text_loop n e acc s = Inr (v, errs) \<Longrightarrow> errs \<noteq> [] \<Longrightarrow> v = []"
  by (induction s arbitrary: acc) (auto split: if_splits sum.splits)

lemma decrypt_bytes_loop_failure_value:
  "decrypt_bytes_loop n d acc cs = Inr (v, errs) \<Longrightarrow> errs \<noteq> [] \<Longrightarrow> v = []"
  by (induction cs arbitrary: acc) (auto split: if_splits sum.splits)

lemma decrypt_bytes_loop_spec:
  assumes "n \<noteq> 0" "0 \<le> d"
  shows "decrypt_bytes_loop n d acc cs =
     (case find (\<lambda>v. \<not> byte_range v) (map (\<lambda>c. c ^ nat d mod n) cs) of
        Some v \<Rightarrow> Inr ([], [InvalidByteValue v])
      | None \<Rightarrow> Inr (acc @ map (\<lambda>c. word_of_int (c ^ nat d mod n)) cs, []))"
  using assms
  by (induction cs arbitrary: acc) (simp_all add: py_pow_nonneg_exp byte_range_def split: option.splits)

lemma uint_byte_of_int: "byte_range v \<Longrightarrow> uint (word_of_int v :: byte) = v"
  by (simp add: byte_range_def uint_word_of_int take_bit_eq_mod)



lemma encrypt_bytes_loop_ok:
  assumes "n \<noteq> 0" "0 \<le> e"
  shows "encrypt_bytes_loop n e acc bs = Inr (acc @ map (\<lambda>b. uint b ^ nat e mod n) bs)"
  by (induction bs arbitrary: acc) (simp_all add: py_pow_nonneg_exp assms)




text \<open>
  C4: under a private key with \<open>n \<noteq> 0\<close> and \<open>d \<ge> 0\<close>, \<open>decrypt_bytes\<close> reports
  \<open>InvalidByteValue\<close> exactly when some decrypted value \<open>c ^ d mod n\<close> lies outside
  \<open>[0, 255]\<close>, and then returns no byte at all; otherwise it returns the decrypted byte
  values in input order and reports nothing.
\<close>

theorem decrypt_bytes_spec:
  assumes "n \<noteq> 0" "0 \<le> d"
  shows "decrypt_bytes (n, d) cs =
     (case find (\<lambda>v. \<not> byte_range v) (map (\<lambda>c. c ^ nat d mod n) cs) of
        Some v \<Rightarrow> Inr ([], [InvalidByteValue v])
      | None \<Rightarrow> Inr (map (\<lambda>c. word_of_int (c ^ nat d mod n)) cs, [])) \<and>
     ((\<exists>v. decrypt_bytes (n, d) cs = Inr ([], [InvalidByteValue v])) \<longleftrightarrow>
        (\<exists>c \<in> set cs. \<not> byte_range (c ^ nat d mod n))) \<and>
     (list_all byte_range (map (\<lambda>c. c ^ nat d mod n) cs) \<longrightarrow>
        map uint (map (\<lambda>c. word_of_int (c ^ nat d mod n) :: byte) cs) = map (\<lambda>c. c ^ nat d mod n) cs)"
proof (intro conjI)
  show eq: "decrypt_bytes (n, d) cs =
     (case find (\<lambda>v. \<not> byte_range v) (map (\<lambda>c. c ^ nat d mod n) cs) of
        Some v \<Rightarrow> Inr ([], [InvalidByteValue v])
      | None \<Rightarrow> Inr (map (\<lambda>c. word_of_int (c ^ nat d mod n)) cs, []))"
    using assms by (simp add: decrypt_bytes_def decrypt_bytes_loop_spec split: option.splits)
  show "(\<exists>v. decrypt_bytes (n, d) cs = Inr ([], [InvalidByteValue v])) \<longleftrightarrow>
        (\<exists>c \<in> set cs. \<not> byte_range (c ^ nat d mod n))"
  proof (cases "find (\<lambda>v. \<not> byte_range v) (map (\<lambda>c. c ^ nat d mod n) cs)")
    case None
    then have "\<not> (\<exists>c \<in> set cs. \<not> byte_range (c ^ nat d mod n))"
      by (auto simp: find_None_iff)
    with None eq show ?thesis by simp
  next
    case (Some v)
    have "\<exists>c \<in> set cs. \<not> byte_range (c ^ nat d mod n)"
    proof (rule ccontr)
      assume "\<not> (\<exists>c \<in> set cs. \<not> byte_range (c ^ nat d mod n))"
      then have "find (\<lambda>v. \<not> byte_range v) (map (\<lambda>c. c ^ nat d mod n) cs) = None"
        by (auto simp: find_None_iff)
      with Some show False by simp
    qed
    with Some eq show ?thesis by simp
  qed
  show "list_all byte_range (map (\<lambda>c. c ^ nat d mod n) cs) \<longrightarrow>
        map uint (map (\<lambda>c. word_of_int (c ^ nat d mod n) :: byte) cs) = map (\<lambda>c. c ^ nat d mod n) cs"
    by (simp add: list_all_iff uint_byte_of_int)
qed

theorem decrypt_bytes_spec_witness:
  "(3233::int) \<noteq> 0 \<and> (0::int) \<le> 3 \<and>
   decrypt_bytes (3233, 3) [4, 7, 5] = Inr ([], [InvalidByteValue 343]) \<and>
   decrypt_bytes (3233, 3) [4, 6, 5] = Inr ([64, 216, 125], [])"
  using decrypt_bytes_spec [of 3233 3 "[4, 7, 5]"] decrypt_bytes_spec [of 3233 3 "[4, 6, 5]"]
  by (simp add: byte_range_def)

text \<open>
  C10: the value that \<open>encrypt_text\<close> returns after reporting a failure is the value it
  returns on the empty string, and the value that \<open>decrypt_bytes\<close> returns after reporting
  a failure is the value it returns on the empty ciphertext: the return value alone does
  not tell a failure from an empty success.
\<close>

theorem failure_value_is_empty_success:
  "encrypt_text pub [] = Inr ([], []) \<and>
   (\<forall>s v errs. encrypt_text pub s = Inr (v, errs) \<and> errs \<noteq> [] \<longrightarrow> Inr (v, []) = encrypt_text pub []) \<and>
   decrypt_bytes priv [] = Inr ([], []) \<and>
   (\<forall>cs v errs. decrypt_bytes priv cs = Inr (v, errs) \<and> errs \<noteq> [] \<longrightarrow> Inr (v, []) = decrypt_bytes priv [])"
proof -
  obtain n e where pub: "pub = (n, e)" by (cases pub)
  obtain m d where priv: "priv = (m, d)" by (cases priv)
  show ?thesis
    unfolding pub priv encrypt_text_def decrypt_bytes_def prod.case
    using encrypt_text_loop_failure_value [of n e "[]"] decrypt_bytes_loop_failure_value [of m d "[]"]
    by auto
qed

theorem failure_value_is_empty_success_witness:
  "encrypt_text (10, 3) [CodePoint 65] = Inr ([], [UnitTooLarge (CodePoint 65) 10]) \<and>
   encrypt_text (10, 3) [] = Inr ([], []) \<and>
   decrypt_bytes (3233, 3) [7] = Inr ([], [InvalidByteValue 343]) \<and>
   decrypt_bytes (3233, 3) [] = Inr ([], [])"
  using failure_value_is_empty_success [of "(10, 3)" "(3233, 3)"]
  by (simp add: encrypt_text_def decrypt_bytes_def py_pow_def)

section \<open>A ciphertext on which \<open>decrypt_text\<close> raises\<close>

lemma minus_one_odd_power_mod:
  fixes n :: int
  assumes "1 < n" "odd k"
  shows "(n - 1) ^ k mod n = n - 1"
proof -
  have "(n - 1) mod n = (- 1) mod n"
    by (metis diff_conv_add_uminus mod_add_self1)
  then have "(n - 1) ^ k mod n = (- 1) ^ k mod n"
    by (metis power_mod)
  also have "(- 1 :: int) ^ k = - 1"
    using \<open>odd k\<close> by simp
  also have "(- 1) mod n = n - 1"
    using \<open>1 < n\<close> by (simp add: zmod_minus1)
  finally show ?thesis .
qed

lemma private_exponent_odd:
  fixes p q e d :: int
  assumes "odd p" "(e * d) mod ((p - 1) * (q - 1)) = 1"
  shows "odd d"
proof
  assume "even d"
  then have "even (e * d)" by simp
  moreover have "even ((p - 1) * (q - 1))" using \<open>odd p\<close> by simp
  ultimately have "even ((e * d) mod ((p - 1) * (q - 1)))"
    by (simp add: dvd_mod)
  with assms(2) show False by simp
qed

text \<open>
  C9: \<open>decrypt_text\<close> is not total. For every private key \<open>(n, d)\<close> of a key pair (\<open>n\<close> the
  product of two odd numbers \<open>p\<close>, \<open>q\<close> and \<open>e * d mod ((p - 1) * (q - 1)) = 1\<close>) with
  \<open>n > 0x110000\<close> there is a ciphertext with entries in \<open>[0, n)\<close> on which \<open>chr\<close> raises:
  the exponent \<open>d\<close> is odd, so \<open>n - 1\<close> decrypts to itself.
\<close>

theorem decrypt_text_not_total:
  assumes "odd p" "odd q" "n = p * q" "(e * d) mod ((p - 1) * (q - 1)) = 1" "0 \<le> d"
    and "0x110000 < n"
  shows "\<exists>cs. list_all (\<lambda>c. 0 \<le> c \<and> c < n) cs \<and> decrypt_text (n, d) cs = Inl ValueError"
proof -
  have "odd d" using assms(1,4) by (rule private_exponent_odd)
  then have "odd (nat d)" using \<open>0 \<le> d\<close> by (simp add: even_nat_iff)
  with \<open>0x110000 < n\<close> have "(n - 1) ^ nat d mod n = n - 1"
    by (intro minus_one_odd_power_mod) simp_all
  with assms(5,6) have "decrypt_text (n, d) [n - 1] = Inl ValueError"
    by (simp add: decrypt_text_def py_pow_nonneg_exp chr_def)
  moreover have "list_all (\<lambda>c. 0 \<le> c \<and> c < n) [n - 1]"
    using \<open>0x110000 < n\<close> by simp
  ultimately show ?thesis by blast
qed

theorem decrypt_text_not_total_witness:
  "odd (1031::int) \<and> odd (1087::int) \<and> (7 * 958783) mod ((1031 - 1) * (1087 - 1)) = (1::int) \<and>
   (\<exists>cs. list_all (\<lambda>c. 0 \<le> c \<and> c < 1120697) cs \<and> decrypt_text (1120697, 958783) cs = Inl ValueError)"
  using decrypt_text_not_total [of 1031 1087 1120697 7 958783] by simp

section \<open>Properties of \<open>mod_inverse\<close>\<close>

lemma mod_inverse_loop_coprime:
  assumes "1 \<le> a" "0 \<le> m" "gcd a m = 1"
    and "0 \<le> x \<and> y \<le> 0 \<or> x \<le> 0 \<and> 0 \<le> y"
    and "\<bar>x\<bar> * m + \<bar>y\<bar> * a = m0"
    and "\<bar>x\<bar> < m0"
    and "(x * a0) mod m0 = a mod m0"
    and "(y * a0) mod m0 = m mod m0"
  shows "\<exists>r. mod_inverse_loop a m x y = Inr r \<and> \<bar>r\<bar> < m0 \<and> (r * a0) mod m0 = 1 mod m0"
  using assms
proof (induction a m x y rule: mod_inverse_loop.induct)
  case (1 a m x y)
  show ?case
  proof (cases "1 < a")
    case False
    with "1.prems"(1) have "a = 1" by simp
    with "1.prems" show ?thesis
      by (subst mod_inverse_loop.simps) simp
  next
    case True
    with "1.prems"(3) have "m \<noteq> 0" by auto
    with "1.prems"(2) have "0 < m" by simp
    define q where "q = a div m"
    have "0 \<le> q" using \<open>0 < m\<close> "1.prems"(1) by (simp add: q_def pos_imp_zdiv_nonneg_iff)
    have amod: "a mod m = a - q * m" by (simp add: q_def minus_div_mult_eq_mod)
    have abs_y': "\<bar>x - q * y\<bar> = \<bar>x\<bar> + q * \<bar>y\<bar>"
    proof -
      from "1.prems"(4) show ?thesis
      proof
        assume h: "0 \<le> x \<and> y \<le> 0"
        then have "q * y \<le> 0" using \<open>0 \<le> q\<close> by (simp add: mult_nonneg_nonpos)
        with h have "\<bar>x - q * y\<bar> = x - q * y" "\<bar>x\<bar> = x" "\<bar>y\<bar> = - y" by simp_all
        then show ?thesis by simp
      next
        assume h: "x \<le> 0 \<and> 0 \<le> y"
        then have "0 \<le> q * y" using \<open>0 \<le> q\<close> by simp
        with h have "\<bar>x - q * y\<bar> = q * y - x" "\<bar>x\<bar> = - x" "\<bar>y\<bar> = y" by simp_all
        then show ?thesis by simp
      qed
    qed
    have signs': "0 \<le> y \<and> x - q * y \<le> 0 \<or> y \<le> 0 \<and> 0 \<le> x - q * y"
    proof -
      from "1.prems"(4) show ?thesis
      proof
        assume "0 \<le> x \<and> y \<le> 0"
        moreover then have "q * y \<le> 0" using \<open>0 \<le> q\<close> by (simp add: mult_nonneg_nonpos)
        ultimately show ?thesis by simp
      next
        assume "x \<le> 0 \<and> 0 \<le> y"
        moreover then have "0 \<le> q * y" using \<open>0 \<le> q\<close> by simp
        ultimately show ?thesis by simp
      qed
    qed
    have sum': "\<bar>y\<bar> * (a mod m) + \<bar>x - q * y\<bar> * m = m0"
      unfolding amod abs_y' using "1.prems"(5) by (simp add: algebra_simps)
    have "\<bar>y\<bar> * a \<le> m0"
    proof -
      have "0 \<le> \<bar>x\<bar> * m" using \<open>0 < m\<close> by simp
      with "1.prems"(5) show ?thesis by linarith
    qed
    have "0 < m0" using "1.prems"(6) by simp
    have bound': "\<bar>y\<bar> < m0"
    proof (cases "y = 0")
      case True
      with \<open>0 < m0\<close> show ?thesis by simp
    next
      case False
      then have "0 < \<bar>y\<bar>" by simp
      then have "\<bar>y\<bar> * 1 < \<bar>y\<bar> * a" using True by (intro mult_strict_left_mono) simp_all
      with \<open>\<bar>y\<bar> * a \<le> m0\<close> show ?thesis by simp
    qed
    have cong_m': "((x - q * y) * a0) mod m0 = (a mod m) mod m0"
    proof -
      have "(q * (y * a0)) mod m0 = (q * m) mod m0"
        using "1.prems"(8) by (intro mod_mult_cong) simp_all
      with "1.prems"(7) have "(x * a0 - q * (y * a0)) mod m0 = (a - q * m) mod m0"
        by (intro mod_diff_cong)
      then show ?thesis by (simp add: amod algebra_simps)
    qed
    have "gcd m (a mod m) = 1"
      by (subst gcd_red_int [symmetric]) (rule "1.prems"(3))
    moreover have "1 \<le> m" using \<open>0 < m\<close> by simp
    moreover have "0 \<le> a mod m" using \<open>0 < m\<close> by simp
    ultimately have "\<exists>r. mod_inverse_loop m (a mod m) y (x - a div m * y) = Inr r \<and> \<bar>r\<bar> < m0
        \<and> (r * a0) mod m0 = 1 mod m0"
      using True \<open>m \<noteq> 0\<close> signs' sum' bound' cong_m' "1.prems"(8)
      by (intro "1.IH") (simp_all add: q_def)
    with True \<open>m \<noteq> 0\<close> show ?thesis
      by (subst mod_inverse_loop.simps) simp
  qed
qed

lemma mod_inverse_loop_not_coprime:
  assumes "1 < a" "0 \<le> m" "gcd a m \<noteq> 1"
  shows "mod_inverse_loop a m x y = Inl ZeroDivisionError"
  using assms
proof (induction a m x y rule: mod_inverse_loop.induct)
  case (1 a m x y)
  show ?case
  proof (cases "m = 0")
    case True
    with "1.prems" show ?thesis by (subst mod_inverse_loop.simps) simp
  next
    case False
    with "1.prems"(2) have "0 < m" by simp
    have "m \<noteq> 1" using "1.prems"(3) by auto
    with \<open>0 < m\<close> have "1 < m" by simp
    moreover have "0 \<le> a mod m" using \<open>0 < m\<close> by simp
    moreover have "gcd m (a mod m) \<noteq> 1"
      by (subst gcd_red_int [symmetric]) (rule "1.prems"(3))
    ultimately have "mod_inverse_loop m (a mod m) y (x - a div m * y) = Inl ZeroDivisionError"
      using "1.prems"(1) False by (intro "1.IH") simp_all
    with "1.prems"(1) False show ?thesis
      by (subst mod_inverse_loop.simps) simp
  qed
qed

lemma mod_inverse_correct:
  assumes "1 \<le> a" "1 < m" "gcd a m = 1"
  shows "\<exists>r. mod_inverse a m = Inr r \<and> 0 \<le> r \<and> r < m \<and> (a * r) mod m = 1"
proof -
  have "\<exists>r. mod_inverse_loop a m 1 0 = Inr r \<and> \<bar>r\<bar> < m \<and> (r * a) mod m = 1 mod m"
    using assms by (intro mod_inverse_loop_coprime) simp_all
  then obtain r where r: "mod_inverse_loop a m 1 0 = Inr r" "\<bar>r\<bar> < m" "(r * a) mod m = 1 mod m"
    by blast
  have one: "(1::int) mod m = 1" using \<open>1 < m\<close> by simp
  show ?thesis
  proof (cases "r < 0")
    case True
    have "((r + m) * a) mod m = (r * a) mod m"
      by (simp add: algebra_simps)
    with r True \<open>1 < m\<close> one show ?thesis
      by (simp add: mod_inverse_def mult.commute)
  next
    case False
    with r \<open>1 < m\<close> one show ?thesis
      by (simp add: mod_inverse_def mult.commute)
  qed
qed

text \<open>
  C6, as the code has it: \<open>mod_inverse(a, 1) = 0\<close>; for \<open>a \<ge> 1\<close> and \<open>m > 1\<close> with
  \<open>gcd(a, m) = 1\<close> the result \<open>r\<close> satisfies \<open>0 \<le> r < m\<close> and \<open>a * r mod m = 1\<close>; for
  \<open>a > 1\<close>, \<open>m \<ge> 0\<close> and \<open>gcd(a, m) \<noteq> 1\<close> the division \<open>a // m\<close> raises
  \<open>ZeroDivisionError\<close>; for \<open>a \<le> 1\<close> and \<open>m \<noteq> 1\<close> the loop is skipped and \<open>1\<close> is returned.
\<close>

theorem mod_inverse_spec:
  "mod_inverse a 1 = Inr 0 \<and>
   (1 \<le> a \<and> 1 < m \<and> py_gcd a m = 1 \<longrightarrow>
      (\<exists>r. mod_inverse a m = Inr r \<and> 0 \<le> r \<and> r < m \<and> (a * r) mod m = 1)) \<and>
   (1 < a \<and> 0 \<le> m \<and> py_gcd a m \<noteq> 1 \<longrightarrow> mod_inverse a m = Inl ZeroDivisionError) \<and>
   (a \<le> 1 \<and> m \<noteq> 1 \<longrightarrow> mod_inverse a m = Inr 1)"
proof (intro conjI impI)
  show "mod_inverse a 1 = Inr 0" by (simp add: mod_inverse_def)
next
  assume "1 \<le> a \<and> 1 < m \<and> py_gcd a m = 1"
  then show "\<exists>r. mod_inverse a m = Inr r \<and> 0 \<le> r \<and> r < m \<and> (a * r) mod m = 1"
    using mod_inverse_correct [of a m] py_gcd_nonneg [of a m] by simp
next
  assume h: "1 < a \<and> 0 \<le> m \<and> py_gcd a m \<noteq> 1"
  then have "gcd a m \<noteq> 1" using py_gcd_nonneg [of a m] by simp
  moreover from this have "m \<noteq> 1" by auto
  ultimately show "mod_inverse a m = Inl ZeroDivisionError"
    using h by (simp add: mod_inverse_def mod_inverse_loop_not_coprime)
next
  assume "a \<le> 1 \<and> m \<noteq> 1"
  then show "mod_inverse a m = Inr 1"
    by (simp add: mod_inverse_def mod_inverse_loop.simps [of a m])
qed

theorem mod_inverse_spec_witness:
  "mod_inverse 17 1 = Inr 0 \<and> py_gcd 17 3120 = 1 \<and> mod_inverse 17 3120 = Inr 2753 \<and>
   py_gcd 2 4 \<noteq> 1 \<and> mod_inverse 2 4 = Inl ZeroDivisionError \<and> mod_inverse 0 5 = Inr 1"
  using mod_inverse_spec [of 17 3120] mod_inverse_spec [of 2 4] mod_inverse_spec [of 0 5]
  by (simp add: py_gcd.simps mod_inverse_def mod_inverse_loop.simps)

text \<open>
  The claim C6 as stated fails twice: \<open>mod_inverse(2, 4)\<close> signals an error although
  \<open>gcd(2, 4) \<noteq> 1\<close>, and \<open>mod_inverse(-1, 5) = 1\<close> is not an inverse although
  \<open>gcd(-1, 5) = 1\<close>.
\<close>

theorem mod_inverse_claim_counterexample:
  "mod_inverse 2 4 = Inl ZeroDivisionError \<and>
   (py_gcd (- 1) 5 = 1 \<and> mod_inverse (- 1) 5 = Inr 1 \<and> ((- 1) * 1) mod 5 \<noteq> (1::int))"
  by (simp add: py_gcd.simps mod_inverse_def mod_inverse_loop.simps)

section \<open>Elementary number theory: Fermat's little theorem\<close>

lemma prime_int_divisor:
  assumes "prime_int p" "m dvd p" "0 \<le> m"
  shows "m = 1 \<or> m = p"
proof -
  from assms(1) have "1 < p" by (simp add: prime_int_def)
  with assms(2) have "m \<noteq> 0" by auto
  with \<open>0 \<le> m\<close> have "0 < m" by simp
  have "m \<le> p" using assms(2) \<open>1 < p\<close> by (intro zdvd_imp_le) simp_all
  show ?thesis
  proof (rule ccontr)
    assume "\<not> (m = 1 \<or> m = p)"
    with \<open>0 < m\<close> \<open>m \<le> p\<close> have "m \<in> {2 .. p - 1}" by simp
    with assms(1) have "\<not> m dvd p" by (simp add: prime_int_def)
    with assms(2) show False by simp
  qed
qed

lemma prime_int_coprime:
  assumes "prime_int p" "\<not> p dvd a"
  shows "coprime p a"
proof -
  have "gcd p a dvd p" "0 \<le> gcd p a" by simp_all
  with assms(1) have "gcd p a = 1 \<or> gcd p a = p" by (intro prime_int_divisor)
  moreover have "gcd p a \<noteq> p"
  proof
    assume "gcd p a = p"
    then have "p dvd a" by (metis gcd_dvd2)
    with assms(2) show False by simp
  qed
  ultimately show ?thesis by (simp add: coprime_iff_gcd_eq_1)
qed

lemma prime_int_dvd_mult:
  assumes "prime_int p" "p dvd a * b"
  shows "p dvd a \<or> p dvd b"
proof (cases "p dvd a")
  case True
  then show ?thesis by simp
next
  case False
  with assms(1) have "coprime p a" by (rule prime_int_coprime)
  with assms(2) show ?thesis by (simp add: coprime_dvd_mult_right_iff)
qed

lemma prime_int_dvd_choose:
  assumes "prime_int p" "0 < k" "k < nat p"
  shows "p dvd int (nat p choose k)"
proof -
  from assms(1) have "1 < p" by (simp add: prime_int_def)
  have "k * (nat p choose k) = nat p * ((nat p - 1) choose (k - 1))"
    using \<open>0 < k\<close> by (rule times_binomial_minus1_eq)
  then have "int k * int (nat p choose k) = int (nat p) * int ((nat p - 1) choose (k - 1))"
    by (metis of_nat_mult)
  then have "p dvd int k * int (nat p choose k)"
    using \<open>1 < p\<close> by simp
  moreover have "\<not> p dvd int k"
  proof
    assume "p dvd int k"
    then have "p \<le> int k" using \<open>0 < k\<close> by (intro zdvd_imp_le) simp_all
    with \<open>k < nat p\<close> show False by simp
  qed
  ultimately show ?thesis
    using prime_int_dvd_mult [OF assms(1)] by blast
qed

lemma fermat_step:
  assumes "prime_int p"
  shows "((a + 1) ^ nat p) mod p = (a ^ nat p + 1) mod p"
proof -
  from assms have "1 < p" by (simp add: prime_int_def)
  define P where "P = nat p"
  have P: "1 < P" "int P = p" using \<open>1 < p\<close> by (simp_all add: P_def)
  obtain Q where Q: "P = Suc Q" "0 < Q" using P(1) by (cases P) auto
  have "(a + 1) ^ P = (\<Sum>k\<le>P. int (P choose k) * a ^ k)"
    by (simp add: binomial_ring)
  also have "\<dots> = int (P choose 0) * a ^ 0 + (\<Sum>k = 1..Q. int (P choose k) * a ^ k) + int (P choose P) * a ^ P"
    unfolding Q(1) by (simp add: atMost_atLeast0 sum.atLeast_Suc_atMost)
  finally have eq: "(a + 1) ^ P = (a ^ P + 1) + (\<Sum>k = 1..Q. int (P choose k) * a ^ k)"
    by simp
  have "p dvd (\<Sum>k = 1..Q. int (P choose k) * a ^ k)"
  proof (rule dvd_sum)
    fix k assume "k \<in> {1..Q}"
    then have "0 < k" "k < nat p" by (simp_all add: P_def [symmetric] Q(1))
    with assms have "p dvd int (nat p choose k)" by (rule prime_int_dvd_choose)
    then show "p dvd int (P choose k) * a ^ k" by (simp add: P_def)
  qed
  then have "((a ^ P + 1) + (\<Sum>k = 1..Q. int (P choose k) * a ^ k)) mod p = (a ^ P + 1) mod p"
    by (metis mod_add_self2 dvd_def mod_mult_self2 mult.commute)
  with eq show ?thesis by (simp add: P_def)
qed

lemma fermat_nonneg:
  assumes "prime_int p"
  shows "(int a) ^ nat p mod p = int a mod p"
proof (induction a)
  case 0
  from assms have "0 < p" by (simp add: prime_int_def)
  then show ?case by (simp add: power_0_left)
next
  case (Suc a)
  have "(int (Suc a)) ^ nat p mod p = ((int a + 1) ^ nat p) mod p"
    by (simp add: add.commute)
  also have "\<dots> = (int a ^ nat p + 1) mod p"
    using assms by (rule fermat_step)
  also have "\<dots> = (int a ^ nat p mod p + 1) mod p"
    by (simp add: mod_simps)
  also have "\<dots> = (int a mod p + 1) mod p"
    by (simp only: Suc.IH)
  also have "\<dots> = int (Suc a) mod p"
    by (simp add: mod_simps add.commute)
  finally show ?case .
qed

lemma fermat_power_p:
  assumes "prime_int p"
  shows "a ^ nat p mod p = a mod p"
proof -
  from assms have "0 < p" by (simp add: prime_int_def)
  then have "0 \<le> a mod p" by simp
  then obtain b where b: "a mod p = int b" by (metis nonneg_int_cases)
  have "a ^ nat p mod p = (a mod p) ^ nat p mod p"
    by (simp add: power_mod)
  also have "\<dots> = int b mod p"
    unfolding b using assms by (rule fermat_nonneg)
  also have "\<dots> = a mod p"
    by (simp add: b [symmetric])
  finally show ?thesis .
qed

lemma fermat_little:
  assumes "prime_int p" "\<not> p dvd a"
  shows "a ^ nat (p - 1) mod p = 1"
proof -
  from assms(1) have "1 < p" by (simp add: prime_int_def)
  then have np: "nat p = Suc (nat (p - 1))" by simp
  have "a ^ nat p mod p = a mod p" using assms(1) by (rule fermat_power_p)
  then have "p dvd a ^ nat p - a" by (simp add: mod_eq_dvd_iff)
  also have "a ^ nat p - a = a * (a ^ nat (p - 1) - 1)"
    by (simp add: np algebra_simps)
  finally have "p dvd a \<or> p dvd a ^ nat (p - 1) - 1"
    using assms(1) by (intro prime_int_dvd_mult)
  with assms(2) have "p dvd a ^ nat (p - 1) - 1" by simp
  then have "a ^ nat (p - 1) mod p = 1 mod p" by (simp add: mod_eq_dvd_iff)
  with \<open>1 < p\<close> show ?thesis by simp
qed

lemma prime_int_sqrt_one:
  assumes "prime_int p" "x\<^sup>2 mod p = 1"
  shows "x mod p = 1 \<or> x mod p = p - 1"
proof -
  from assms(1) have "1 < p" by (simp add: prime_int_def)
  then have "x\<^sup>2 mod p = 1 mod p" using assms(2) by simp
  then have "p dvd x\<^sup>2 - 1" by (simp add: mod_eq_dvd_iff)
  also have "x\<^sup>2 - 1 = (x - 1) * (x + 1)" by (simp add: power2_eq_square algebra_simps)
  finally have "p dvd x - 1 \<or> p dvd x + 1"
    using assms(1) by (intro prime_int_dvd_mult)
  then show ?thesis
  proof
    assume "p dvd x - 1"
    then have "x mod p = 1 mod p" by (simp add: mod_eq_dvd_iff)
    with \<open>1 < p\<close> show ?thesis by simp
  next
    assume "p dvd x + 1"
    then have "p dvd x - (- 1)" by simp
    then have "x mod p = (- 1) mod p" by (simp only: mod_eq_dvd_iff)
    with \<open>1 < p\<close> show ?thesis by (simp add: zmod_minus1)
  qed
qed

lemma power_cycle_mod_prime:
  assumes "prime_int p"
  shows "m ^ (1 + nat (p - 1) * j) mod p = m mod p"
proof (cases "p dvd m")
  case True
  then have "p dvd m ^ (1 + nat (p - 1) * j)" by simp
  with True show ?thesis by (simp add: mod_eq_0_iff_dvd)
next
  case False
  with assms have one: "m ^ nat (p - 1) mod p = 1" by (rule fermat_little)
  have "m ^ (1 + nat (p - 1) * j) mod p = (m * (m ^ nat (p - 1)) ^ j) mod p"
    by (simp add: power_mult)
  also have "\<dots> = (m * ((m ^ nat (p - 1) mod p) ^ j mod p)) mod p"
    by (simp add: mod_simps power_mod)
  also have "\<dots> = m mod p"
    by (simp add: one mod_simps)
  finally show ?thesis .
qed

lemma rsa_exponent_cycle:
  assumes "prime_int p" "prime_int q" "p \<noteq> q" "0 \<le> m" "m < p * q"
    and "k mod (nat (p - 1) * nat (q - 1)) = 1"
  shows "m ^ k mod (p * q) = m"
proof -
  from assms(1,2) have pq: "1 < p" "1 < q" by (simp_all add: prime_int_def)
  define phi where "phi = nat (p - 1) * nat (q - 1)"
  have k: "k = 1 + phi * (k div phi)"
    using assms(6) by (metis phi_def add.commute mult_div_mod_eq)
  have "m ^ k mod p = m mod p"
  proof -
    have "k = 1 + nat (p - 1) * (nat (q - 1) * (k div phi))"
      using k by (simp add: phi_def mult.assoc)
    then show ?thesis using power_cycle_mod_prime [OF assms(1)] by metis
  qed
  moreover have "m ^ k mod q = m mod q"
  proof -
    have "k = 1 + nat (q - 1) * (nat (p - 1) * (k div phi))"
      using k by (simp add: phi_def mult.assoc mult.left_commute)
    then show ?thesis using power_cycle_mod_prime [OF assms(2)] by metis
  qed
  ultimately have "p dvd m ^ k - m" "q dvd m ^ k - m"
    by (simp_all add: mod_eq_dvd_iff)
  moreover have "coprime p q"
  proof (rule prime_int_coprime [OF assms(1)])
    show "\<not> p dvd q"
    proof
      assume "p dvd q"
      with assms(2) pq have "p = 1 \<or> p = q" by (intro prime_int_divisor) simp_all
      with pq assms(3) show False by simp
    qed
  qed
  ultimately have "p * q dvd m ^ k - m" by (rule divides_mult)
  then have "m ^ k mod (p * q) = m mod (p * q)" by (simp add: mod_eq_dvd_iff)
  with assms(4,5) show ?thesis by simp
qed

section \<open>Properties of \<open>is_prime\<close>\<close>

lemma split_loop_returns:
  "0 < m \<Longrightarrow> \<exists>s d. split_loop s0 m = Some (s, d) \<and> s0 \<le> s \<and> odd d \<and> 0 < d
      \<and> m = 2 ^ nat (s - s0) * d"
proof (induction "nat m" arbitrary: m s0 rule: less_induct)
  case less
  show ?case
  proof (cases "m mod 2 = 0")
    case False
    then have "split_loop s0 m = Some (s0, m)" by (subst split_loop.simps) simp
    moreover from False have "odd m" by (simp add: odd_iff_mod_2_eq_one)
    ultimately show ?thesis using \<open>0 < m\<close> by simp
  next
    case True
    then have "even m" by (simp add: even_iff_mod_2_eq_zero)
    then have m2: "m = 2 * (m div 2)" by simp
    with \<open>0 < m\<close> have pos: "0 < m div 2" by simp
    then have "nat (m div 2) < nat m" using \<open>0 < m\<close> by simp
    from less.hyps [OF this pos, of "s0 + 1"]
    obtain s d where sd: "split_loop (s0 + 1) (m div 2) = Some (s, d)" "s0 + 1 \<le> s" "odd d" "0 < d"
      "m div 2 = 2 ^ nat (s - (s0 + 1)) * d" by blast
    have "split_loop s0 m = Some (s, d)"
      using True sd(1) by (subst split_loop.simps) simp
    moreover have "nat (s - s0) = Suc (nat (s - (s0 + 1)))" using sd(2) by simp
    then have "m = 2 ^ nat (s - s0) * d" using m2 sd(5) by simp
    ultimately show ?thesis using sd(2,3,4) by simp
  qed
qed

lemma squaring_loop_total:
  "n \<noteq> 0 \<Longrightarrow> \<exists>b. squaring_loop j x n = Inr b"
  by (induction j arbitrary: x) (auto simp: py_pow_def)

lemma squaring_loop_prime:
  assumes "prime_int n"
  shows "0 \<le> x \<Longrightarrow> x < n \<Longrightarrow> x \<noteq> 1 \<Longrightarrow> x \<noteq> n - 1 \<Longrightarrow> x ^ (2 ^ Suc j) mod n = 1
     \<Longrightarrow> squaring_loop j x n = Inr True"
proof (induction j arbitrary: x)
  case 0
  then have "x\<^sup>2 mod n = 1" by simp
  with assms have "x mod n = 1 \<or> x mod n = n - 1" by (rule prime_int_sqrt_one)
  with 0 show ?case by simp
next
  case (Suc j)
  from assms have n: "1 < n" by (simp add: prime_int_def)
  define y where "y = x\<^sup>2 mod n"
  have pw: "py_pow x 2 n = Inr y" using n by (simp add: py_pow_def y_def)
  show ?case
  proof (cases "y = n - 1")
    case True
    with pw show ?thesis by simp
  next
    case False
    have y_range: "0 \<le> y" "y < n" using n by (simp_all add: y_def)
    have "y ^ (2 ^ Suc j) mod n = (x\<^sup>2) ^ (2 ^ Suc j) mod n"
      by (simp add: y_def power_mod)
    also have "(x\<^sup>2) ^ (2 ^ Suc j) = x ^ (2 ^ Suc (Suc j))"
      by (simp add: power_mult [symmetric])
    finally have y_pow: "y ^ (2 ^ Suc j) mod n = 1" using Suc.prems(5) by simp
    have "y \<noteq> 1"
    proof
      assume "y = 1"
      then have "x\<^sup>2 mod n = 1" by (simp add: y_def)
      with assms have "x mod n = 1 \<or> x mod n = n - 1" by (rule prime_int_sqrt_one)
      with Suc.prems show False by simp
    qed
    with y_range False y_pow have "squaring_loop j y n = Inr True"
      by (intro Suc.IH)
    with pw False show ?thesis by simp
  qed
qed

lemma randint_range:
  assumes "a \<le> b"
  shows "\<exists>v. randint a b g = Inr (v, stl g) \<and> a \<le> v \<and> v \<le> b"
proof -
  define r where "r = int (shd g) mod (b - a + 1)"
  from assms have "0 < b - a + 1" by simp
  then have "0 \<le> r" "r < b - a + 1"
    unfolding r_def by (rule pos_mod_sign, rule pos_mod_bound)
  then have "a \<le> a + r" "a + r \<le> b" by simp_all
  with assms show ?thesis by (simp add: randint_def r_def)
qed

lemma trial_loop_total:
  assumes "4 \<le> n" "0 \<le> d"
  shows "\<exists>b g'. trial_loop k n s d g = Inr (b, g')"
proof (induction k arbitrary: g)
  case 0
  show ?case by auto
next
  case (Suc k)
  from assms(1) obtain a where a: "randint 2 (n - 2) g = Inr (a, stl g)"
    using randint_range [of 2 "n - 2" g] by auto
  have pw: "py_pow a d n = Inr (a ^ nat d mod n)"
    using assms by (simp add: py_pow_nonneg_exp)
  obtain b where b: "squaring_loop (nat (s - 1)) (a ^ nat d mod n) n = Inr b"
    using squaring_loop_total [of n] assms(1) by fastforce
  from Suc [of "stl g"] show ?case
    by (cases b) (auto simp: a pw b)
qed

lemma trial_loop_prime:
  assumes "prime_int n" "5 \<le> n" "n - 1 = 2 ^ nat s * d" "1 \<le> s" "0 \<le> d"
  shows "\<exists>g'. trial_loop k n s d g = Inr (True, g')"
proof (induction k arbitrary: g)
  case 0
  show ?case by simp
next
  case (Suc k)
  from assms(2) obtain a where a: "randint 2 (n - 2) g = Inr (a, stl g)" "2 \<le> a" "a \<le> n - 2"
    using randint_range [of 2 "n - 2" g] by auto
  define x where "x = a ^ nat d mod n"
  have pw: "py_pow a d n = Inr x"
    using assms by (simp add: py_pow_nonneg_exp x_def)
  have x_range: "0 \<le> x" "x < n" using assms(2) by (simp_all add: x_def)
  have "\<not> n dvd a"
  proof
    assume "n dvd a"
    then have "n \<le> a" using a(2) by (intro zdvd_imp_le) simp_all
    with a(3) show False by simp
  qed
  with assms(1) have fermat: "a ^ nat (n - 1) mod n = 1" by (rule fermat_little)
  have s: "nat s = Suc (nat (s - 1))" using assms(4) by simp
  have "nat (n - 1) = nat d * 2 ^ nat s"
    using assms(3,5) by (simp add: nat_mult_distrib nat_power_eq mult.commute)
  then have "a ^ nat (n - 1) = (a ^ nat d) ^ (2 ^ nat s)"
    by (simp add: power_mult)
  then have "x ^ (2 ^ nat s) mod n = 1"
    using fermat by (simp add: x_def power_mod)
  then have x_pow: "x ^ (2 ^ Suc (nat (s - 1))) mod n = 1"
    using s by simp
  from Suc [of "stl g"] obtain g' where IH: "trial_loop k n s d (stl g) = Inr (True, g')" by blast
  show ?case
  proof (cases "x = 1 \<or> x = n - 1")
    case True
    with a(1) pw IH show ?thesis by auto
  next
    case False
    with assms(1) x_range x_pow have "squaring_loop (nat (s - 1)) x n = Inr True"
      by (intro squaring_loop_prime) simp_all
    with a(1) pw IH False show ?thesis by auto
  qed
qed

lemma prime_97: "prime_int 97"
  by code_simp

lemma is_prime_total: "\<exists>b g'. is_prime n k g = Some (Inr (b, g'))"
proof (cases "n \<le> 1 \<or> n = 4 \<or> n \<le> 3 \<or> n mod 2 = 0")
  case True
  then show ?thesis by (auto simp: is_prime_def)
next
  case False
  then have "0 < n - 1" by simp
  from split_loop_returns [OF this, of 0]
  obtain s d where sd: "split_loop 0 (n - 1) = Some (s, d)" "0 < d" by blast
  from False have "4 \<le> n" by simp
  with sd(2) obtain b g' where "trial_loop (nat k) n s d g = Inr (b, g')"
    using trial_loop_total [of n d "nat k" s g] by auto
  with False sd(1) show ?thesis by (simp add: is_prime_def)
qed

lemma is_prime_prime:
  assumes "prime_int n"
  shows "\<exists>g'. is_prime n k g = Some (Inr (True, g'))"
proof (cases "n \<le> 3")
  case True
  with assms show ?thesis by (auto simp: is_prime_def prime_int_def)
next
  case False
  with assms have "\<not> 2 dvd n" by (simp add: prime_int_def)
  then have odd: "n mod 2 \<noteq> 0" by (simp add: even_iff_mod_2_eq_zero)
  with False have n: "5 \<le> n" by presburger
  then have "0 < n - 1" by simp
  from split_loop_returns [OF this, of 0]
  obtain s d where sd: "split_loop 0 (n - 1) = Some (s, d)" "0 \<le> s" "odd d" "0 < d"
    "n - 1 = 2 ^ nat (s - 0) * d" by blast
  have "s \<noteq> 0"
  proof
    assume "s = 0"
    with sd(5) have "n - 1 = d" by simp
    with sd(3) \<open>\<not> 2 dvd n\<close> show False by presburger
  qed
  with sd(2) have "1 \<le> s" by simp
  with assms n sd obtain g' where "trial_loop (nat k) n s d g = Inr (True, g')"
    using trial_loop_prime [of n s d "nat k" g] by auto
  with n odd sd(1) show ?thesis by (simp add: is_prime_def)
qed

lemma is_prime_passed:
  assumes "is_prime n k g = Some (Inr (True, g'))"
  shows "2 \<le> n \<and> (n = 2 \<or> odd n)"
proof -
  from assms have "\<not> n \<le> 1" by (auto simp: is_prime_def)
  moreover from assms have "n = 2 \<or> n = 3 \<or> n mod 2 \<noteq> 0"
    by (auto simp: is_prime_def split: if_splits)
  ultimately show ?thesis by (auto simp: even_iff_mod_2_eq_zero)
qed

lemma split_loop_14: "split_loop 0 14 = Some (1, 7)"
  by (simp add: split_loop.simps)

lemma split_loop_90: "split_loop 0 90 = Some (1, 45)"
  by (simp add: split_loop.simps)

lemma no_liar_15: "\<forall>a \<in> set [2 .. 13 :: int]. a ^ 7 mod 15 \<noteq> 1 \<and> a ^ 7 mod 15 \<noteq> 14"
  by code_simp

lemma is_prime_15:
  assumes "0 < k"
  shows "is_prime 15 k g = Some (Inr (False, stl g))"
proof -
  obtain a where a: "randint 2 (15 - 2) g = Inr (a, stl g)" "2 \<le> a" "a \<le> 13"
    using randint_range [of 2 "15 - 2" g] by auto
  then have "a \<in> set [2 .. 13]" unfolding set_upto by simp
  with no_liar_15 have x: "a ^ 7 mod 15 \<noteq> 1" "a ^ 7 mod 15 \<noteq> 14" by blast+
  from assms obtain j where j: "nat k = Suc j" by (cases "nat k") auto
  have "trial_loop (Suc j) 15 1 7 g = Inr (False, stl g)"
    using a(1) x by (simp add: py_pow_def)
  with j show ?thesis by (simp add: is_prime_def split_loop_14)
qed

lemma trial_loop_91:
  "\<exists>g'. trial_loop k 91 1 45 g = Inr (list_all (\<lambda>a. a ^ 45 mod 91 = 1 \<or> a ^ 45 mod 91 = 90) (bases 91 k g), g')"
proof (induction k arbitrary: g)
  case 0
  show ?case by (simp add: bases_def)
next
  case (Suc k)
  have a: "randint 2 89 g = Inr (2 + int (shd g) mod 88, stl g)"
    by (simp add: randint_def)
  have b: "bases 91 (Suc k) g = (2 + int (shd g) mod 88) # bases 91 k (stl g)"
    by (simp add: bases_def)
  from Suc [of "stl g"] show ?case
    unfolding b by (auto simp: a py_pow_def)
qed

lemma is_prime_91:
  "\<exists>g'. is_prime 91 k g = Some (Inr (list_all (\<lambda>a. a ^ 45 mod 91 = 1 \<or> a ^ 45 mod 91 = 90) (bases 91 (nat k) g), g'))"
  using trial_loop_91 [of "nat k" g] by (simp add: is_prime_def split_loop_90)

text \<open>
  C5, as the code has it. For every generator state \<open>g\<close> and every number \<open>k\<close> of rounds:
  \<open>is_prime\<close> returns true for 2, 3 and 97 and false for 1 and 4; false for 15 as soon as
  one round is run, since no base in \<open>[2, 13]\<close> passes; false for every \<open>n \<le> 1\<close>, for
  \<open>n = 4\<close> and for every even \<open>n > 2\<close>; true for \<open>n \<in> {2, 3}\<close>; and true for every prime
  (no false negative). For 91 the answer depends on the draws: it is true exactly when
  every base \<open>a\<close> that the rounds draw satisfies \<open>a ^ 45 mod 91 \<in> {1, 90}\<close>.
\<close>

theorem is_prime_classification:
  "(\<exists>g'. is_prime 2 k g = Some (Inr (True, g'))) \<and>
   (\<exists>g'. is_prime 3 k g = Some (Inr (True, g'))) \<and>
   (\<exists>g'. is_prime 97 k g = Some (Inr (True, g'))) \<and>
   is_prime 1 k g = Some (Inr (False, g)) \<and>
   is_prime 4 k g = Some (Inr (False, g)) \<and>
   (0 < k \<longrightarrow> is_prime 15 k g = Some (Inr (False, stl g))) \<and>
   (\<exists>g'. is_prime 91 k g =
      Some (Inr (list_all (\<lambda>a. a ^ 45 mod 91 = 1 \<or> a ^ 45 mod 91 = 90) (bases 91 (nat k) g), g'))) \<and>
   (\<forall>n. n \<le> 1 \<or> n = 4 \<or> (2 < n \<and> even n) \<longrightarrow> is_prime n k g = Some (Inr (False, g))) \<and>
   (\<forall>n. n = 2 \<or> n = 3 \<longrightarrow> is_prime n k g = Some (Inr (True, g))) \<and>
   (\<forall>n. prime_int n \<longrightarrow> (\<exists>g'. is_prime n k g = Some (Inr (True, g'))))"
proof (intro conjI allI impI)
  show "\<exists>g'. is_prime 2 k g = Some (Inr (True, g'))" by (simp add: is_prime_def)
  show "\<exists>g'. is_prime 3 k g = Some (Inr (True, g'))" by (simp add: is_prime_def)
  show "\<exists>g'. is_prime 97 k g = Some (Inr (True, g'))" using prime_97 by (rule is_prime_prime)
  show "is_prime 1 k g = Some (Inr (False, g))" by (simp add: is_prime_def)
  show "is_prime 4 k g = Some (Inr (False, g))" by (simp add: is_prime_def)
  show "is_prime 15 k g = Some (Inr (False, stl g))" if "0 < k" using that by (rule is_prime_15)
  show "\<exists>g'. is_prime 91 k g =
      Some (Inr (list_all (\<lambda>a. a ^ 45 mod 91 = 1 \<or> a ^ 45 mod 91 = 90) (bases 91 (nat k) g), g'))"
    by (rule is_prime_91)
  show "is_prime n k g = Some (Inr (False, g))" if "n \<le> 1 \<or> n = 4 \<or> (2 < n \<and> even n)" for n
    using that by (auto simp: is_prime_def even_iff_mod_2_eq_zero)
  show "is_prime n k g = Some (Inr (True, g))" if "n = 2 \<or> n = 3" for n
    using that by (auto simp: is_prime_def)
  show "\<exists>g'. is_prime n k g = Some (Inr (True, g'))" if "prime_int n" for n
    using that by (rule is_prime_prime)
qed

text \<open>
  The claim C5 as stated fails on 91: the base 9 is a strong liar
  (\<open>9 ^ 45 mod 91 = 1\<close>), and when all five rounds draw it, \<open>is_prime(91)\<close> returns true.
\<close>

lemma trial_loop_91_liar: "trial_loop k 91 1 45 (sconst 7) = Inr (True, sconst 7)"
  by (induction k) (simp_all add: randint_def py_pow_def)

theorem is_prime_91_counterexample: "is_prime 91 5 (sconst 7) = Some (Inr (True, sconst 7))"
  by (simp add: is_prime_def split_loop_90 trial_loop_91_liar)

theorem is_prime_classification_witness:
  "prime_int 97 \<and> (\<exists>g'. is_prime 97 5 (sconst 7) = Some (Inr (True, g'))) \<and>
   is_prime 15 5 (sconst 7) = Some (Inr (False, sconst 7)) \<and>
   is_prime 6 5 (sconst 7) = Some (Inr (False, sconst 7)) \<and>
   is_prime 3 5 (sconst 7) = Some (Inr (True, sconst 7)) \<and>
   bases 91 5 (sconst 7) = [9, 9, 9, 9, 9] \<and>
   (\<exists>g'. is_prime 91 5 (sconst 7) = Some (Inr (True, g')))"
proof -
  note t = is_prime_classification [of 5 "sconst 7"]
  have b: "bases 91 5 (sconst 7) = [9, 9, 9, 9, 9]"
    by (simp add: bases_def eval_nat_numeral)
  have "(9::int) ^ 45 mod 91 = 1" by simp
  with t b prime_97 show ?thesis by auto
qed

section \<open>Properties of \<open>generate_prime\<close>\<close>

lemma candidate_shape:
  assumes "0 < bits"
  shows "odd (int r mod 2 ^ nat bits OR (push_bit (nat (bits - 1)) 1 OR 1))"
    and "2 ^ nat (bits - 1) \<le> int r mod 2 ^ nat bits OR (push_bit (nat (bits - 1)) 1 OR 1)"
    and "int r mod 2 ^ nat bits OR (push_bit (nat (bits - 1)) 1 OR 1) < 2 ^ nat bits"
proof -
  define p0 :: int where "p0 = int r mod 2 ^ nat bits"
  define msb :: int where "msb = 2 ^ nat (bits - 1)"
  have p0: "0 \<le> p0" "p0 < 2 ^ nat bits" by (simp_all add: p0_def)
  have "nat bits = Suc (nat (bits - 1))" using assms by simp
  then have pw: "(2::int) ^ nat bits = 2 * msb" by (simp add: msb_def)
  have "(1::int) \<le> msb" unfolding msb_def by (rule one_le_power) simp
  then have msb: "0 < msb" "msb < 2 ^ nat bits" "1 < (2::int) ^ nat bits"
    unfolding pw by linarith+
  have m1: "0 \<le> msb OR 1" using msb(1) by simp
  have "msb OR 1 < 2 ^ nat bits" using msb by (intro OR_upper) simp_all
  then have up: "p0 OR (msb OR 1) < 2 ^ nat bits" by (rule OR_upper [OF p0])
  have "msb \<le> msb OR 1" by (intro or_greater_eq) simp
  also have "\<dots> \<le> (msb OR 1) OR p0" using p0(1) by (intro or_greater_eq)
  finally have lo: "msb \<le> p0 OR (msb OR 1)" by (simp add: or.commute)
  have "odd (p0 OR (msb OR 1))" by (simp add: even_or_iff)
  with up lo show "odd (int r mod 2 ^ nat bits OR (push_bit (nat (bits - 1)) 1 OR 1))"
    and "2 ^ nat (bits - 1) \<le> int r mod 2 ^ nat bits OR (push_bit (nat (bits - 1)) 1 OR 1)"
    and "int r mod 2 ^ nat bits OR (push_bit (nat (bits - 1)) 1 OR 1) < 2 ^ nat bits"
    by (simp_all add: p0_def msb_def)
qed

lemma generate_prime_result:
  assumes "generate_prime bits g = Some r"
  shows "(\<exists>ex. r = Inl ex \<and> bits \<le> 0) \<or>
     (\<exists>p g' g1. r = Inr (p, g') \<and> 0 < bits \<and> odd p \<and> 2 ^ nat (bits - 1) \<le> p \<and> p < 2 ^ nat bits
        \<and> is_prime p 5 g1 = Some (Inr (True, g')))"
  using assms
proof (induction bits g r rule: generate_prime.raw_induct [rotated 1, consumes 1])
  case (1 f bits g r)
  show ?case
  proof (cases "0 < bits")
    case False
    have "r = Inl ValueError"
    proof (cases "bits < 0")
      case True
      with "1"(2) show ?thesis by (simp add: getrandbits_def)
    next
      case nonneg: False
      with False have "bits = 0" by simp
      with "1"(2) show ?thesis by (simp add: getrandbits_def py_shl_def)
    qed
    with False show ?thesis by simp
  next
    case True
    define p where "p = int (shd g) mod 2 ^ nat bits OR (push_bit (nat (bits - 1)) 1 OR 1)"
    have shape: "odd p" "2 ^ nat (bits - 1) \<le> p" "p < 2 ^ nat bits"
      unfolding p_def using True by (rule candidate_shape)+
    have draw: "getrandbits bits g = Inr (int (shd g) mod 2 ^ nat bits, stl g)"
      "py_shl 1 (bits - 1) = Inr (push_bit (nat (bits - 1)) 1)"
      using True by (simp_all add: getrandbits_def py_shl_def)
    obtain b g2 where test: "is_prime p 5 (stl g) = Some (Inr (b, g2))"
      using is_prime_total by blast
    have body: "(if b then Some (Inr (p, g2)) else f bits g2) = Some r"
      using "1"(2) unfolding draw sum.case prod.case p_def [symmetric] test option.case
      by simp
    show ?thesis
    proof (cases b)
      case True
      with body have "r = Inr (p, g2)" by simp
      moreover from True test have "is_prime p 5 (stl g) = Some (Inr (True, g2))" by simp
      ultimately show ?thesis using shape \<open>0 < bits\<close> by blast
    next
      case False
      with body have "f bits g2 = Some r" by simp
      then show ?thesis by (rule "1"(1))
    qed
  qed
qed

lemma trial_loop_17: "trial_loop k 17 4 1 (sconst 0) = Inr (True, sconst 0)"
  by (induction k) (simp_all add: randint_def py_pow_def numeral_3_eq_3)

lemma split_loop_16: "split_loop 0 16 = Some (4, 1)"
  by (simp add: split_loop.simps)

lemma is_prime_17: "is_prime 17 5 (sconst 0) = Some (Inr (True, sconst 0))"
  by (simp add: is_prime_def split_loop_16 trial_loop_17)

lemma generate_prime_17: "generate_prime 5 (17 ## sconst 0) = Some (Inr (17, sconst 0))"
  by (subst generate_prime.simps) (simp add: getrandbits_def py_shl_def is_prime_17)

text \<open>
  C8: for every positive bit length, whenever \<open>generate_prime(bits)\<close> returns, it returns
  normally, and its result is odd, lies in \<open>[2 ^ (bits - 1), 2 ^ bits)\<close> and has passed
  \<open>is_prime\<close> (the call that made the loop stop returned true).
\<close>

theorem generate_prime_postcondition:
  assumes "0 < bits" "generate_prime bits g = Some r"
  shows "\<exists>p g' g1. r = Inr (p, g') \<and> odd p \<and> 2 ^ nat (bits - 1) \<le> p \<and> p < 2 ^ nat bits
      \<and> is_prime p 5 g1 = Some (Inr (True, g'))"
  using generate_prime_result [OF assms(2)] assms(1) by auto

theorem generate_prime_postcondition_witness:
  "(0::int) < 5 \<and> generate_prime 5 (17 ## sconst 0) = Some (Inr (17, sconst 0)) \<and>
   (\<exists>g1. odd (17::int) \<and> (2::int) ^ nat (5 - 1) \<le> 17 \<and> (17::int) < 2 ^ nat 5
      \<and> is_prime 17 5 g1 = Some (Inr (True, sconst 0)))"
  using generate_prime_postcondition [of 5 "17 ## sconst 0" "Inr (17, sconst 0)"] generate_prime_17
  by simp

section \<open>Properties of \<open>generate_keypair\<close>\<close>

lemma distinct_loop_result:
  assumes "distinct_loop bits p q g = Some r" "0 < bits div 2"
    and "odd q \<and> 2 ^ nat (bits div 2 - 1) \<le> q \<and> q < 2 ^ nat (bits div 2)
      \<and> (\<exists>g1 g2. is_prime q 5 g1 = Some (Inr (True, g2)))"
  shows "\<exists>q' g'. r = Inr (q', g') \<and> q' \<noteq> p \<and> odd q' \<and> 2 ^ nat (bits div 2 - 1) \<le> q'
      \<and> q' < 2 ^ nat (bits div 2) \<and> (\<exists>g1 g2. is_prime q' 5 g1 = Some (Inr (True, g2)))"
  using assms
proof (induction bits p q g r rule: distinct_loop.raw_induct [rotated 1, consumes 1])
  case (1 f bits p q g r)
  show ?case
  proof (cases "p = q")
    case False
    with "1"(2) have "r = Inr (q, g)" by simp
    with False "1"(4) show ?thesis by auto
  next
    case True
    obtain r' where r': "generate_prime (bits div 2) g = Some r'"
      using "1"(2) True by (cases "generate_prime (bits div 2) g") auto
    from generate_prime_result [OF r'] "1"(3)
    obtain q' g' g1 where q': "r' = Inr (q', g')" "odd q'" "2 ^ nat (bits div 2 - 1) \<le> q'"
      "q' < 2 ^ nat (bits div 2)" "is_prime q' 5 g1 = Some (Inr (True, g'))"
      by auto
    with "1"(2) True r' have "f bits p q' g' = Some r" by simp
    moreover note "1"(3)
    moreover have "odd q' \<and> 2 ^ nat (bits div 2 - 1) \<le> q' \<and> q' < 2 ^ nat (bits div 2)
      \<and> (\<exists>g1 g2. is_prime q' 5 g1 = Some (Inr (True, g2)))"
      using q' by blast
    ultimately show ?thesis by (rule "1"(1))
  qed
qed

lemma choose_e_loop_result:
  assumes "choose_e_loop e phi g = Some r" "3 \<le> phi" "2 \<le> e" "e \<le> phi - 1"
  shows "\<exists>e' g'. r = Inr (e', g') \<and> 2 \<le> e' \<and> e' \<le> phi - 1 \<and> py_gcd e' phi = 1"
  using assms
proof (induction e phi g r rule: choose_e_loop.raw_induct [rotated 1, consumes 1])
  case (1 f e phi g r)
  show ?case
  proof (cases "py_gcd e phi = 1")
    case True
    with "1"(2) have "r = Inr (e, g)" by simp
    with True "1"(4,5) show ?thesis by simp
  next
    case False
    from "1"(3) obtain e' where e': "randint 2 (phi - 1) g = Inr (e', stl g)" "2 \<le> e'" "e' \<le> phi - 1"
      using randint_range [of 2 "phi - 1" g] by auto
    with "1"(2) False have "f e' phi (stl g) = Some r" by simp
    then show ?thesis using "1"(3) e'(2,3) by (rule "1"(1))
  qed
qed

lemma passed_odd_ge_3:
  assumes "odd p" "is_prime p 5 g1 = Some (Inr (True, g2))"
  shows "3 \<le> p"
proof -
  from is_prime_passed [OF assms(2)] have "2 \<le> p" by simp
  with assms(1) show ?thesis by presburger
qed

lemma totient_ge_8:
  fixes p q :: int
  assumes "3 \<le> p" "3 \<le> q" "odd p" "odd q" "p \<noteq> q"
  shows "8 \<le> (p - 1) * (q - 1)"
proof -
  have "5 \<le> p \<or> 5 \<le> q" using assms by presburger
  then show ?thesis
  proof
    assume "5 \<le> p"
    then have "4 * 2 \<le> (p - 1) * (q - 1)" using assms(2) by (intro mult_mono) simp_all
    then show ?thesis by simp
  next
    assume "5 \<le> q"
    then have "2 * 4 \<le> (p - 1) * (q - 1)" using assms(1) by (intro mult_mono) simp_all
    then show ?thesis by simp
  qed
qed

lemma generate_keypair_result:
  assumes "generate_keypair bits g = Some r"
  shows "(\<exists>ex. r = Inl ex \<and> bits div 2 \<le> 0) \<or>
     (\<exists>p q e d g'. r = Inr (((p * q, e), (p * q, d)), g') \<and> 0 < bits div 2 \<and> p \<noteq> q
        \<and> odd p \<and> 2 ^ nat (bits div 2 - 1) \<le> p \<and> p < 2 ^ nat (bits div 2)
        \<and> (\<exists>g1 g2. is_prime p 5 g1 = Some (Inr (True, g2)))
        \<and> odd q \<and> 2 ^ nat (bits div 2 - 1) \<le> q \<and> q < 2 ^ nat (bits div 2)
        \<and> (\<exists>g1 g2. is_prime q 5 g1 = Some (Inr (True, g2)))
        \<and> 2 \<le> e \<and> e \<le> (p - 1) * (q - 1) - 1 \<and> py_gcd e ((p - 1) * (q - 1)) = 1
        \<and> 0 \<le> d \<and> d < (p - 1) * (q - 1) \<and> (e * d) mod ((p - 1) * (q - 1)) = 1)"
proof -
  obtain r1 where r1: "generate_prime (bits div 2) g = Some r1"
    using assms by (cases "generate_prime (bits div 2) g") (auto simp: generate_keypair_def)
  show ?thesis
  proof (cases "bits div 2 \<le> 0")
    case True
    with generate_prime_result [OF r1] obtain ex where "r1 = Inl ex" by auto
    with assms r1 True show ?thesis by (auto simp: generate_keypair_def)
  next
    case False
    then have b: "0 < bits div 2" by simp
    with generate_prime_result [OF r1]
    obtain p g1 ga where p: "r1 = Inr (p, g1)" "odd p" "2 ^ nat (bits div 2 - 1) \<le> p"
      "p < 2 ^ nat (bits div 2)" "is_prime p 5 ga = Some (Inr (True, g1))"
      by auto
    obtain r2 where r2: "generate_prime (bits div 2) g1 = Some r2"
      using assms r1 p(1)
      by (cases "generate_prime (bits div 2) g1") (auto simp: generate_keypair_def)
    with generate_prime_result [OF r2] b
    obtain q0 g2 gb where q0: "r2 = Inr (q0, g2)" "odd q0" "2 ^ nat (bits div 2 - 1) \<le> q0"
      "q0 < 2 ^ nat (bits div 2)" "is_prime q0 5 gb = Some (Inr (True, g2))"
      by auto
    obtain r3 where r3: "distinct_loop bits p q0 g2 = Some r3"
      using assms r1 p(1) r2 q0(1)
      by (cases "distinct_loop bits p q0 g2") (auto simp: generate_keypair_def)
    have "odd q0 \<and> 2 ^ nat (bits div 2 - 1) \<le> q0 \<and> q0 < 2 ^ nat (bits div 2)
      \<and> (\<exists>g1 g2. is_prime q0 5 g1 = Some (Inr (True, g2)))"
      using q0 by blast
    from distinct_loop_result [OF r3 b this]
    obtain q g3 gc gd where q: "r3 = Inr (q, g3)" "q \<noteq> p" "odd q" "2 ^ nat (bits div 2 - 1) \<le> q"
      "q < 2 ^ nat (bits div 2)" "is_prime q 5 gc = Some (Inr (True, gd))"
      by blast
    let ?phi = "(p - 1) * (q - 1)"
    have "3 \<le> p" using p(2,5) by (rule passed_odd_ge_3)
    moreover have "3 \<le> q" using q(3,6) by (rule passed_odd_ge_3)
    ultimately have phi: "8 \<le> ?phi"
      using p(2) q(3) q(2) by (intro totient_ge_8) simp_all
    then obtain e0 where e0: "randint 2 (?phi - 1) g3 = Inr (e0, stl g3)" "2 \<le> e0" "e0 \<le> ?phi - 1"
      using randint_range [of 2 "?phi - 1" g3] by auto
    have step: "(case choose_e_loop e0 ?phi (stl g3) of
        None \<Rightarrow> None
      | Some (Inl ex) \<Rightarrow> Some (Inl ex)
      | Some (Inr (e, g5)) \<Rightarrow>
         (case mod_inverse e ?phi of
            Inl ex \<Rightarrow> Some (Inl ex)
          | Inr d \<Rightarrow> Some (Inr (((p * q, e), (p * q, d)), g5)))) = Some r"
      using assms r1 p(1) r2 q0(1) r3 q(1) e0(1)
      by (simp add: generate_keypair_def Let_def)
    then obtain r5 where r5: "choose_e_loop e0 ?phi (stl g3) = Some r5"
      by (cases "choose_e_loop e0 ?phi (stl g3)") auto
    from choose_e_loop_result [OF r5 _ e0(2,3)] phi
    obtain e g5 where e: "r5 = Inr (e, g5)" "2 \<le> e" "e \<le> ?phi - 1" "py_gcd e ?phi = 1"
      by auto
    from e(2,4) phi have "gcd e ?phi = 1" using py_gcd_nonneg [of e "?phi"] by simp
    with e(2) phi obtain d where d: "mod_inverse e ?phi = Inr d" "0 \<le> d" "d < ?phi" "(e * d) mod ?phi = 1"
      using mod_inverse_correct [of e "?phi"] by auto
    from step r5 e(1) d(1) have "r = Inr (((p * q, e), (p * q, d)), g5)" by simp
    with b p q e d show ?thesis by blast
  qed
qed

text \<open>
  With \<open>bits = 4\<close> both primes have two bits, and the only candidate with two bits is
  \<open>0b11 = 3\<close>: the loop \<open>while p == q\<close> never ends, whatever the generator delivers.
\<close>

lemma generate_prime_2: "generate_prime 2 g = Some (Inr (3, stl g))"
proof -
  define p where "p = int (shd g) mod 2 ^ nat 2 OR (push_bit (nat (2 - 1)) 1 OR 1)"
  have "odd p" "2 ^ nat (2 - 1) \<le> p" "p < 2 ^ nat 2"
    unfolding p_def by (rule candidate_shape, simp)+
  then have "p = 3" by (simp add: numeral_2_eq_2) presburger
  then have "int (shd g) mod 4 OR (2 OR 1) = 3" by (simp add: p_def)
  then show ?thesis
    by (subst generate_prime.simps) (simp add: getrandbits_def py_shl_def is_prime_def)
qed

lemma distinct_loop_3_3:
  assumes "distinct_loop bits p q g = Some r" "bits = 4" "p = 3" "q = 3"
  shows False
  using assms
proof (induction bits p q g r rule: distinct_loop.raw_induct [rotated 1, consumes 1])
  case (1 f bits p q g r)
  then have "f 4 3 3 (stl g) = Some r" by (simp add: generate_prime_2)
  then show ?case using "1"(3,4,5) "1"(1) by blast
qed

text \<open>
  The claim C2 as stated fails on the positive even bit length 4:
  \<open>generate_keypair(4)\<close> does not return.
\<close>

theorem generate_keypair_4_diverges: "generate_keypair 4 (sconst 0) = None"
proof -
  have "distinct_loop 4 3 3 g = None" for g
    using distinct_loop_3_3 [of 4 3 3 g] by (cases "distinct_loop 4 3 3 g") auto
  then show ?thesis by (simp add: generate_keypair_def generate_prime_2)
qed

text \<open>
  C2, as the code has it: for every positive even bit length, whenever
  \<open>generate_keypair(bits)\<close> returns (which it can only for \<open>bits \<ge> 6\<close>), it returns
  \<open>((n, e), (n, d))\<close> where \<open>n = p * q\<close> for two values \<open>p \<noteq> q\<close>, each of which has passed
  \<open>is_prime\<close> and has bit length exactly \<open>bits / 2\<close>, and where, with
  \<open>phi = (p - 1) * (q - 1)\<close>, \<open>2 \<le> e \<le> phi - 1\<close>, \<open>gcd(e, phi) = 1\<close> and
  \<open>(e * d) mod phi = 1\<close>.
\<close>

theorem generate_keypair_postcondition:
  assumes "0 < bits" "even bits" "generate_keypair bits g = Some r"
  shows "6 \<le> bits \<and>
     (\<exists>p q e d g'. r = Inr (((p * q, e), (p * q, d)), g') \<and> p \<noteq> q
        \<and> 2 ^ nat (bits div 2 - 1) \<le> p \<and> p < 2 ^ nat (bits div 2)
        \<and> (\<exists>g1 g2. is_prime p 5 g1 = Some (Inr (True, g2)))
        \<and> 2 ^ nat (bits div 2 - 1) \<le> q \<and> q < 2 ^ nat (bits div 2)
        \<and> (\<exists>g1 g2. is_prime q 5 g1 = Some (Inr (True, g2)))
        \<and> 2 \<le> e \<and> e \<le> (p - 1) * (q - 1) - 1 \<and> py_gcd e ((p - 1) * (q - 1)) = 1
        \<and> (e * d) mod ((p - 1) * (q - 1)) = 1)"
proof -
  from assms(1,2) have b: "0 < bits div 2" by presburger
  then have "\<not> (\<exists>ex. r = Inl ex \<and> bits div 2 \<le> 0)" by simp
  with generate_keypair_result [OF assms(3)]
  obtain p q e d g' where res: "r = Inr (((p * q, e), (p * q, d)), g')" "p \<noteq> q"
    and p: "odd p" "2 ^ nat (bits div 2 - 1) \<le> p" "p < 2 ^ nat (bits div 2)"
      "\<exists>g1 g2. is_prime p 5 g1 = Some (Inr (True, g2))"
    and q: "odd q" "2 ^ nat (bits div 2 - 1) \<le> q" "q < 2 ^ nat (bits div 2)"
      "\<exists>g1 g2. is_prime q 5 g1 = Some (Inr (True, g2))"
    and e: "2 \<le> e" "e \<le> (p - 1) * (q - 1) - 1" "py_gcd e ((p - 1) * (q - 1)) = 1"
      "(e * d) mod ((p - 1) * (q - 1)) = 1"
    by blast
  have "3 \<le> p" "3 \<le> q" using p(1,4) q(1,4) passed_odd_ge_3 by blast+
  have "\<not> bits div 2 \<le> 2"
  proof
    assume "bits div 2 \<le> 2"
    then have "nat (bits div 2) \<le> 2" by simp
    then have "(2::int) ^ nat (bits div 2) \<le> 2 ^ 2" by (intro power_increasing) simp_all
    with p(3) q(3) have "p < 4" "q < 4" by simp_all
    with \<open>3 \<le> p\<close> \<open>3 \<le> q\<close> res(2) show False by simp
  qed
  with assms(2) have "6 \<le> bits" by presburger
  with res p q e show ?thesis by blast
qed

lemmas trial_loop_numeral = trial_loop.simps(2) [of "pred_numeral v" for v, folded numeral_eq_Suc]

lemmas squaring_loop_numeral = squaring_loop.simps(2) [of "pred_numeral v" for v, folded numeral_eq_Suc]

lemma split_loop_4: "split_loop 0 4 = Some (2, 1)"
  by (simp add: split_loop.simps)

lemma split_loop_6: "split_loop 0 6 = Some (1, 3)"
  by (simp add: split_loop.simps)

lemma generate_keypair_6:
  "generate_keypair 6 (5 ## 0 ## 0 ## 0 ## 0 ## 0 ## 7 ## 1 ## 1 ## 1 ## 1 ## 1 ## 3 ## sconst 0)
     = Some (Inr (((35, 5), (35, 5)), sconst 0))"
  by (simp add: generate_keypair_def generate_prime.simps getrandbits_def py_shl_def is_prime_def
      split_loop_4 split_loop_6 trial_loop_numeral squaring_loop_numeral randint_def py_pow_def
      distinct_loop.simps choose_e_loop.simps py_gcd.simps mod_inverse_def mod_inverse_loop.simps
      Let_def)

theorem generate_keypair_postcondition_witness:
  "(0::int) < 6 \<and> even (6::int) \<and>
   generate_keypair 6 (5 ## 0 ## 0 ## 0 ## 0 ## 0 ## 7 ## 1 ## 1 ## 1 ## 1 ## 1 ## 3 ## sconst 0)
     = Some (Inr (((35, 5), (35, 5)), sconst 0)) \<and>
   (\<exists>p q. (35::int) = p * q \<and> p \<noteq> q \<and> 2 ^ nat (6 div 2 - 1) \<le> p \<and> p < 2 ^ nat (6 div 2)
      \<and> 2 ^ nat (6 div 2 - 1) \<le> q \<and> q < 2 ^ nat (6 div 2)
      \<and> py_gcd 5 ((p - 1) * (q - 1)) = 1 \<and> (5 * 5) mod ((p - 1) * (q - 1)) = 1)"
  using generate_keypair_postcondition [OF _ _ generate_keypair_6] generate_keypair_6
  by auto

section \<open>Round trip\<close>

lemma semiprime_factors:
  assumes "prime_int p'" "prime_int q'" "p * q = p' * q'" "1 < p" "1 < q"
  shows "prime_int p \<and> prime_int q"
proof -
  from assms(1,2) have pos: "1 < p'" "1 < q'" by (simp_all add: prime_int_def)
  have "p' dvd p * q" using assms(3) by simp
  with assms(1) have "p' dvd p \<or> p' dvd q" by (rule prime_int_dvd_mult)
  then show ?thesis
  proof
    assume "p' dvd p"
    then obtain k where k: "p = p' * k" ..
    with assms(3) pos have "k * q = q'" by simp
    then have "q dvd q'" by (metis dvd_triv_right)
    with assms(2,5) have "q = q'" using prime_int_divisor [of q' q] by auto
    with \<open>k * q = q'\<close> assms(5) have "k = 1" by simp
    with k \<open>q = q'\<close> assms(1,2) show ?thesis by simp
  next
    assume "p' dvd q"
    then obtain k where k: "q = p' * k" ..
    with assms(3) pos have "p * k = q'" by simp
    then have "p dvd q'" by (metis dvd_triv_left)
    with assms(2,4) have "p = q'" using prime_int_divisor [of q' p] by auto
    with \<open>p * k = q'\<close> assms(4) have "k = 1" by simp
    with k \<open>p = q'\<close> assms(1,2) show ?thesis by simp
  qed
qed

lemma rsa_unit_round_trip:
  assumes "prime_int p" "prime_int q" "p \<noteq> q" "0 \<le> e" "0 \<le> d"
    and "(e * d) mod ((p - 1) * (q - 1)) = 1" "0 \<le> u" "u < p * q"
  shows "(u ^ nat e mod (p * q)) ^ nat d mod (p * q) = u"
proof -
  from assms(1,2) have pq: "1 < p" "1 < q" by (simp_all add: prime_int_def)
  have "int (nat e * nat d mod (nat (p - 1) * nat (q - 1))) = (e * d) mod ((p - 1) * (q - 1))"
    using assms(4,5) pq by (simp add: zmod_int)
  with assms(6) have k: "nat e * nat d mod (nat (p - 1) * nat (q - 1)) = 1"
    by (metis of_nat_1 of_nat_eq_iff)
  have "(u ^ nat e mod (p * q)) ^ nat d mod (p * q) = u ^ (nat e * nat d) mod (p * q)"
    by (simp add: power_mod power_mult)
  also have "\<dots> = u"
    using assms(1,2,3,7,8) k by (rule rsa_exponent_cycle)
  finally show ?thesis .
qed

lemma encrypt_text_loop_ok:
  assumes "0 \<le> e" "valid_str s" "\<forall>c \<in> set s. ord c < n"
  shows "encrypt_text_loop n e acc s = Inr (acc @ map (\<lambda>c. ord c ^ nat e mod n) s, [])"
  using assms(2,3)
proof (induction s arbitrary: acc)
  case Nil
  show ?case by simp
next
  case (Cons c s)
  then have "0 \<le> ord c" "ord c < n" "valid_str s" "\<forall>c \<in> set s. ord c < n"
    by (simp_all add: valid_str_def)
  with Cons.IH [of "acc @ [ord c ^ nat e mod n]"] assms(1) show ?case
    by (simp add: py_pow_nonneg_exp)
qed

lemma decrypt_text_loop_ok:
  assumes "n \<noteq> 0" "0 \<le> d" "\<forall>c \<in> set cs. 0 \<le> c ^ nat d mod n \<and> c ^ nat d mod n < 0x110000"
  shows "decrypt_text_loop n d acc cs = Inr (acc @ map (\<lambda>c. CodePoint (c ^ nat d mod n)) cs)"
  using assms(3)
  by (induction cs arbitrary: acc) (simp_all add: py_pow_nonneg_exp assms(1,2) chr_def)

lemma text_round_trip:
  assumes "prime_int p" "prime_int q" "p \<noteq> q" "0 \<le> e" "0 \<le> d"
    and "(e * d) mod ((p - 1) * (q - 1)) = 1"
    and "valid_str s" "\<forall>c \<in> set s. ord c < p * q"
  shows "\<exists>cs. encrypt_text (p * q, e) s = Inr (cs, []) \<and> decrypt_text (p * q, d) cs = Inr s"
proof -
  let ?n = "p * q"
  from assms(1,2) have "1 < p" "1 < q" by (simp_all add: prime_int_def)
  then have n: "0 < ?n" and pq0: "p \<noteq> 0" "q \<noteq> 0" by simp_all
  define cs where "cs = map (\<lambda>c. ord c ^ nat e mod ?n) s"
  have enc: "encrypt_text (?n, e) s = Inr (cs, [])"
    using encrypt_text_loop_ok [OF assms(4,7,8), of "[]"] by (simp add: encrypt_text_def cs_def)
  have unit: "(ord c ^ nat e mod ?n) ^ nat d mod ?n = ord c" if "c \<in> set s" for c
  proof -
    from that assms(7,8) have "0 \<le> ord c" "ord c < ?n"
      by (simp_all add: valid_str_def list_all_iff)
    with assms(1-6) show ?thesis by (intro rsa_unit_round_trip)
  qed
  have "\<forall>c \<in> set cs. 0 \<le> c ^ nat d mod ?n \<and> c ^ nat d mod ?n < 0x110000"
    using unit assms(7) by (auto simp: cs_def valid_str_def list_all_iff)
  with n assms(5) have "decrypt_text (?n, d) cs = Inr (map (\<lambda>c. CodePoint (c ^ nat d mod ?n)) cs)"
    using decrypt_text_loop_ok [of ?n d cs "[]"] pq0 by (simp add: decrypt_text_def)
  also have "map (\<lambda>c. CodePoint (c ^ nat d mod ?n)) cs = map (\<lambda>c. c) s"
    unfolding cs_def map_map by (rule map_cong) (simp_all add: unit)
  finally show ?thesis using enc by simp
qed

lemma bytes_round_trip:
  assumes "prime_int p" "prime_int q" "p \<noteq> q" "0 \<le> e" "0 \<le> d"
    and "(e * d) mod ((p - 1) * (q - 1)) = 1"
    and "\<forall>b \<in> set bs. uint b < p * q"
  shows "\<exists>cs. encrypt_bytes (p * q, e) bs = Inr cs \<and> decrypt_bytes (p * q, d) cs = Inr (bs, [])"
proof -
  let ?n = "p * q"
  from assms(1,2) have "1 < p" "1 < q" by (simp_all add: prime_int_def)
  then have n: "0 < ?n" and pq0: "p \<noteq> 0" "q \<noteq> 0" by simp_all
  define cs where "cs = map (\<lambda>b. uint b ^ nat e mod ?n) bs"
  have enc: "encrypt_bytes (?n, e) bs = Inr cs"
    using encrypt_bytes_loop_ok [of ?n e "[]" bs] pq0 assms(4) by (simp add: encrypt_bytes_def cs_def)
  have unit: "(uint b ^ nat e mod ?n) ^ nat d mod ?n = uint b" if "b \<in> set bs" for b :: byte
  proof -
    from that assms(7) have "0 \<le> uint b" "uint b < ?n" by simp_all
    with assms(1-6) show ?thesis by (intro rsa_unit_round_trip)
  qed
  have vals: "map (\<lambda>c. c ^ nat d mod ?n) cs = map uint bs"
    unfolding cs_def map_map by (rule map_cong) (simp_all add: unit)
  have "byte_range (uint b)" for b :: byte
    using uint_bounded [of b] by (simp add: byte_range_def)
  then have none: "find (\<lambda>v. \<not> byte_range v) (map uint bs) = None"
    by (simp add: find_None_iff)
  have "map (\<lambda>c. word_of_int (c ^ nat d mod ?n) :: byte) cs = map word_of_int (map (\<lambda>c. c ^ nat d mod ?n) cs)"
    by simp
  also have "\<dots> = bs" unfolding vals by (simp add: map_idI)
  finally have "decrypt_bytes (?n, d) cs = Inr (bs, [])"
    using decrypt_bytes_loop_spec [of ?n d "[]" cs] pq0 assms(5)
    by (simp add: decrypt_bytes_def vals none)
  with enc show ?thesis by blast
qed

text \<open>
  C1, as the code has it: for every key pair \<open>((n, e), (n, d))\<close> returned by
  \<open>generate_keypair\<close> whose modulus \<open>n\<close> is the product of two distinct primes (the two
  probable primes are prime indeed), and every message all of whose units are
  non-negative and less than \<open>n\<close>, decrypting the encryption returns exactly the original
  message, on the text path and on the byte path.
\<close>

theorem round_trip:
  assumes "generate_keypair bits g = Some (Inr ((pub, priv), g'))"
    and "\<exists>p q. prime_int p \<and> prime_int q \<and> p \<noteq> q \<and> fst pub = p * q"
    and "valid_str text" "\<forall>c \<in> set text. ord c < fst pub"
    and "\<forall>b \<in> set data. uint b < fst pub"
  shows "(\<exists>cs. encrypt_text pub text = Inr (cs, []) \<and> decrypt_text priv cs = Inr text) \<and>
     (\<exists>cs. encrypt_bytes pub data = Inr cs \<and> decrypt_bytes priv cs = Inr (data, []))"
proof -
  have "\<not> (\<exists>ex. Inr ((pub, priv), g') = Inl ex \<and> bits div 2 \<le> 0)" by simp
  with generate_keypair_result [OF assms(1)]
  obtain p q e d g'' where "Inr ((pub, priv), g') = Inr (((p * q, e), (p * q, d)), g'')"
    and "p \<noteq> q \<and> odd p \<and> (\<exists>g1 g2. is_prime p 5 g1 = Some (Inr (True, g2)))
      \<and> odd q \<and> (\<exists>g1 g2. is_prime q 5 g1 = Some (Inr (True, g2)))
      \<and> 2 \<le> e \<and> 0 \<le> d \<and> (e * d) mod ((p - 1) * (q - 1)) = 1"
    by blast
  then have "pub = (p * q, e) \<and> priv = (p * q, d) \<and> p \<noteq> q
      \<and> odd p \<and> (\<exists>g1 g2. is_prime p 5 g1 = Some (Inr (True, g2)))
      \<and> odd q \<and> (\<exists>g1 g2. is_prime q 5 g1 = Some (Inr (True, g2)))
      \<and> 2 \<le> e \<and> 0 \<le> d \<and> (e * d) mod ((p - 1) * (q - 1)) = 1"
    by simp
  then have keys: "pub = (p * q, e)" "priv = (p * q, d)" and "p \<noteq> q"
    and p: "odd p" "\<exists>g1 g2. is_prime p 5 g1 = Some (Inr (True, g2))"
    and q: "odd q" "\<exists>g1 g2. is_prime q 5 g1 = Some (Inr (True, g2))"
    and e: "2 \<le> e" "0 \<le> d" "(e * d) mod ((p - 1) * (q - 1)) = 1"
    by blast+
  have "3 \<le> p" "3 \<le> q" using p q passed_odd_ge_3 by blast+
  from assms(2) keys(1) obtain p' q' where "prime_int p'" "prime_int q'" "p * q = p' * q'"
    by auto
  with \<open>3 \<le> p\<close> \<open>3 \<le> q\<close> have primes: "prime_int p" "prime_int q"
    using semiprime_factors [of p' q' p q] by simp_all
  from e(1) have "0 \<le> e" by simp
  show ?thesis
    unfolding keys
    using text_round_trip [OF primes \<open>p \<noteq> q\<close> \<open>0 \<le> e\<close> e(2,3) assms(3)]
      bytes_round_trip [OF primes \<open>p \<noteq> q\<close> \<open>0 \<le> e\<close> e(2,3)] assms(4,5)
    by (simp add: keys)
qed

text \<open>
  The claim C1 as stated fails when a composite passes the primality test. With
  \<open>bits = 10\<close>, the candidate \<open>p = 25\<close> passes all five rounds when each draws the base 7
  (\<open>7 ^ 3 mod 25 = 18\<close>, \<open>18 ^ 2 mod 25 = 24\<close>); with \<open>q = 17\<close> and \<open>e = 5\<close> the key pair
  \<open>((425, 5), (425, 77))\<close> is returned, under which the unit 5 is encrypted to 150 and
  150 is decrypted to 175.
\<close>

lemma split_loop_24: "split_loop 0 24 = Some (3, 3)"
  by (simp add: split_loop.simps)

lemma generate_keypair_10:
  "generate_keypair 10 (25 ## 5 ## 5 ## 5 ## 5 ## 5 ## 17 ## 0 ## 0 ## 0 ## 0 ## 0 ## 3 ## sconst 0)
     = Some (Inr (((425, 5), (425, 77)), sconst 0))"
  by (simp add: generate_keypair_def generate_prime.simps getrandbits_def py_shl_def is_prime_def
      split_loop_24 split_loop_16 trial_loop_numeral squaring_loop_numeral randint_def py_pow_def
      distinct_loop.simps choose_e_loop.simps py_gcd.simps mod_inverse_def mod_inverse_loop.simps
      Let_def)

theorem round_trip_counterexample:
  "generate_keypair 10 (25 ## 5 ## 5 ## 5 ## 5 ## 5 ## 17 ## 0 ## 0 ## 0 ## 0 ## 0 ## 3 ## sconst 0)
     = Some (Inr (((425, 5), (425, 77)), sconst 0)) \<and>
   encrypt_text (425, 5) [CodePoint 5] = Inr ([150], []) \<and>
   decrypt_text (425, 77) [150] = Inr [CodePoint 175] \<and>
   encrypt_bytes (425, 5) [5] = Inr [150] \<and>
   decrypt_bytes (425, 77) [150] = Inr ([175], [])"
  by (simp add: generate_keypair_10 encrypt_text_def decrypt_text_def encrypt_bytes_def
      decrypt_bytes_def py_pow_def chr_def)

lemma prime_5_7: "prime_int 5" "prime_int 7"
  by code_simp+

theorem round_trip_witness:
  "generate_keypair 6 (5 ## 0 ## 0 ## 0 ## 0 ## 0 ## 7 ## 1 ## 1 ## 1 ## 1 ## 1 ## 3 ## sconst 0)
     = Some (Inr (((35, 5), (35, 5)), sconst 0)) \<and>
   prime_int 5 \<and> prime_int 7 \<and> valid_str [CodePoint 2, CodePoint 33] \<and>
   (\<exists>cs. encrypt_text (35, 5) [CodePoint 2, CodePoint 33] = Inr (cs, [])
      \<and> decrypt_text (35, 5) cs = Inr [CodePoint 2, CodePoint 33]) \<and>
   (\<exists>cs. encrypt_bytes (35, 5) [3, 34] = Inr cs \<and> decrypt_bytes (35, 5) cs = Inr ([3, 34], []))"
proof -
  have "\<exists>p q. prime_int p \<and> prime_int q \<and> p \<noteq> q \<and> fst (35 :: int, 5 :: int) = p * q"
    using prime_5_7 by (intro exI [of _ 5] exI [of _ 7]) simp
  moreover have "valid_str [CodePoint 2, CodePoint 33]" by (simp add: valid_str_def)
  moreover have "\<forall>c \<in> set [CodePoint 2, CodePoint 33]. ord c < fst (35 :: int, 5 :: int)" by simp
  moreover have "\<forall>b \<in> set [3, 34 :: byte]. uint b < fst (35 :: int, 5 :: int)" by simp
  ultimately show ?thesis
    using round_trip [OF generate_keypair_6, of "[CodePoint 2, CodePoint 33]" "[3, 34]"]
      generate_keypair_6 prime_5_7
    by simp
qed

end
